theory Spec2Isabelle
  imports Main
begin

section \<open>Python values, dictionaries and errors\<close>

text \<open>
  The values that \<open>scripts/generate.py\<close> moves around come from YAML files and from the
  SD-JWT engines: \<open>None\<close>, booleans, integers, strings, lists and dictionaries.  A
  dictionary is an association list in insertion order (the artifact loop iterates in
  that order); looking a key up reads the first binding.  Every key the script looks up
  or stores is a string, and a dictionary is represented by its bindings under string
  keys.
\<close>

datatype pyval =
    PNone
  | PBool bool
  | PInt int
  | PStr string
  | PList "pyval list"
  | PDict "(string \<times> pyval) list"

type_synonym pydict = "(string \<times> pyval) list"

text \<open>
  Every exception the script or an engine can raise is a value.  The first five are what
  the script itself raises (a missing key, a wrong type, a sequence of the wrong length in
  \<open>dict.update\<close>, the callback's \<open>Exception(f"Unknown issuer: {issuer}")\<close>, \<open>sys.exit\<close>);
  the others are the error taxonomy of the engines.
\<close>

datatype error =
    KeyError string
  | TypeError
  | ValueError
  | UnknownIssuer string
  | SystemExit string
  | EncodingError
  | InvalidSignatureError
  | UnresolvedDigestError
  | DuplicateDigestError
  | ExpiredCredentialError
  | NotYetValidError
  | HolderBindingError
  | MissingBindingError
  | PolicyError
  | SigningError
  | UnknownClaimSelectedError
  | MissingBindingKeyError
  | OtherError string

text \<open>Python truthiness, as used by \<open>x if c else y\<close> and \<open>if c:\<close>.\<close>

fun truthy :: "pyval \<Rightarrow> bool" where
  "truthy PNone = False"
| "truthy (PBool b) = b"
| "truthy (PInt i) = (i \<noteq> 0)"
| "truthy (PStr s) = (s \<noteq> [])"
| "truthy (PList xs) = (xs \<noteq> [])"
| "truthy (PDict d) = (d \<noteq> [])"

text \<open>\<open>d[k]\<close>: KeyError when the key is absent.\<close>

definition subscript :: "pydict \<Rightarrow> string \<Rightarrow> error + pyval" where
  "subscript d k = (case map_of d k of None \<Rightarrow> Inl (KeyError k) | Some v \<Rightarrow> Inr v)"

text \<open>\<open>v[k]\<close> on a value that has to be a dictionary first (\<open>settings["identifiers"]["issuer"]\<close>).\<close>

definition subscript_val :: "pyval \<Rightarrow> string \<Rightarrow> error + pyval" where
  "subscript_val v k = (case v of PDict d \<Rightarrow> subscript d k | _ \<Rightarrow> Inl TypeError)"

text \<open>\<open>d.get(k, default)\<close> and \<open>d.get(k)\<close> (default \<open>None\<close>).\<close>

definition get_default :: "pydict \<Rightarrow> string \<Rightarrow> pyval \<Rightarrow> pyval" where
  "get_default d k dflt = (case map_of d k of None \<Rightarrow> dflt | Some v \<Rightarrow> v)"

definition get_none :: "pydict \<Rightarrow> string \<Rightarrow> pyval" where
  "get_none d k = get_default d k PNone"

text \<open>\<open>d[k] = v\<close>: an existing key keeps its position, a new key goes to the end.\<close>

definition dict_set :: "pydict \<Rightarrow> string \<Rightarrow> pyval \<Rightarrow> pydict" where
  "dict_set d k v =
     (if k \<in> fst ` set d then map (\<lambda>(k', v'). if k' = k then (k', v) else (k', v')) d
      else d @ [(k, v)])"

text \<open>\<open>d.update(e)\<close>: the bindings of \<open>e\<close> are stored one after another.\<close>

definition dict_update :: "pydict \<Rightarrow> pydict \<Rightarrow> pydict" where
  "dict_update d e = foldl (\<lambda>acc (k, v). dict_set acc k v) d e"

section \<open>Sequencing fallible steps\<close>

text \<open>An exception raised by a step ends the run: the rest is not executed.\<close>

definition and_then :: "error + 'a \<Rightarrow> ('a \<Rightarrow> error + 'b) \<Rightarrow> error + 'b" where
  "and_then m f = (case m of Inl e \<Rightarrow> Inl e | Inr x \<Rightarrow> f x)"

section \<open>Preparing the claim set (lines 29 to 42)\<close>

text \<open>
  \<open>settings\<close> is the module-level dictionary read by \<open>generate_test_case_data\<close>; it is a
  parameter here.  The base dictionary holds \<open>iss\<close>, \<open>iat\<close> and \<open>exp\<close> from the settings,
  and \<open>claims.update(testcase["user_claims"])\<close> stores the user claims over it.
\<close>

definition base_claims :: "pydict \<Rightarrow> error + pydict" where
  "base_claims settings =
     and_then (subscript settings ''identifiers'') (\<lambda>ids.
     and_then (subscript_val ids ''issuer'') (\<lambda>iss.
     and_then (subscript settings ''iat'') (\<lambda>iat.
     and_then (subscript settings ''exp'') (\<lambda>ex.
     Inr [(''iss'', iss), (''iat'', iat), (''exp'', ex)]))))"

text \<open>
  What \<open>dict.update(other)\<close> stores.  A dictionary gives its bindings.  Anything else is
  iterated, and each item must itself be a sequence of exactly two members, key and
  value: a list of two values, a string of two characters, or a dictionary of two keys
  (which iterates as its keys).  An item that cannot be iterated is a \<open>TypeError\<close>, an item
  of another length a \<open>ValueError\<close>, a key that is a list or a dictionary (unhashable) a
  \<open>TypeError\<close>.  \<open>None\<close>, a boolean and a number cannot be iterated at all.  A binding
  under a key that is not a string is stored by Python and is not represented here.
\<close>

fun update_item :: "pyval \<Rightarrow> error + (pyval \<times> pyval)" where
  "update_item (PList [k, v]) = Inr (k, v)"
| "update_item (PList xs) = Inl ValueError"
| "update_item (PStr [a, b]) = Inr (PStr [a], PStr [b])"
| "update_item (PStr s) = Inl ValueError"
| "update_item (PDict [(k1, v1), (k2, v2)]) = Inr (PStr k1, PStr k2)"
| "update_item (PDict es) = Inl ValueError"
| "update_item v = Inl TypeError"

fun update_binding :: "pyval \<times> pyval \<Rightarrow> error + pydict" where
  "update_binding (PStr k, v) = Inr [(k, v)]"
| "update_binding (PList xs, v) = Inl TypeError"
| "update_binding (PDict es, v) = Inl TypeError"
| "update_binding (k, v) = Inr []"

fun update_items :: "pyval list \<Rightarrow> error + pydict" where
  "update_items [] = Inr []"
| "update_items (x # xs) =
     and_then (update_item x) (\<lambda>kv.
     and_then (update_binding kv) (\<lambda>b.
     and_then (update_items xs) (\<lambda>rest. Inr (b @ rest))))"

fun update_bindings :: "pyval \<Rightarrow> error + pydict" where
  "update_bindings (PDict u) = Inr u"
| "update_bindings (PList xs) = update_items xs"
| "update_bindings (PStr s) = update_items (map (\<lambda>c. PStr [c]) s)"
| "update_bindings v = Inl TypeError"

definition user_claims_of :: "pydict \<Rightarrow> error + pydict" where
  "user_claims_of testcase =
     and_then (subscript testcase ''user_claims'') update_bindings"

definition make_claims :: "pydict \<Rightarrow> pydict \<Rightarrow> error + pydict" where
  "make_claims settings testcase =
     and_then (base_claims settings) (\<lambda>base.
     and_then (user_claims_of testcase) (\<lambda>u.
     Inr (dict_update base u)))"

section \<open>The issuer-key callback (lines 71 to 76)\<close>

text \<open>
  \<open>cb_get_issuer_key\<close> closes over \<open>claims\<close> and \<open>demo_keys\<close>.  The issuer identifier it is
  called with is a string; a string equals \<open>claims["iss"]\<close> exactly when that value is the
  same string.
\<close>

definition cb_get_issuer_key :: "pydict \<Rightarrow> 'k \<Rightarrow> string \<Rightarrow> error + 'k" where
  "cb_get_issuer_key claims issuer_public_key issuer =
     and_then (subscript claims ''iss'') (\<lambda>iss.
     if PStr issuer = iss then Inr issuer_public_key else Inl (UnknownIssuer issuer))"

section \<open>The engines and helpers the script calls\<close>

text \<open>
  The script reads these attributes of the objects the engines return.  What an engine
  keeps besides them is its own (\<open>issuer_internal\<close>, and the type \<open>'h\<close> of a Holder before
  \<open>create_presentation\<close>, the type \<open>'v\<close> of a Verifier).
\<close>

record 'k demo_keys =
  issuer_key :: 'k
  holder_key :: 'k
  issuer_public_key :: 'k

record issuer_obj =
  combined_sd_jwt_iid :: string
  sd_jwt_payload :: pyval
  serialized_sd_jwt :: string
  decoy_digests :: "string list"
  issuer_internal :: pyval

record holder_obj =
  combined_presentation :: string
  holder_binding_jwt_payload :: pyval
  serialized_holder_binding_jwt :: pyval
  hash_to_decoded_disclosure :: pyval
  hash_to_disclosure :: pyval

text \<open>
  The imported names, as parameters: the three engine classes (the Issuer's constructor
  sees the class attribute \<open>unsafe_randomness\<close>, its first argument here), the loaders of
  \<open>sd_jwt.utils.demo_utils\<close> and the functions of \<open>sd_jwt.utils.formatting\<close>.
\<close>

record ('k, 'h, 'v) engines =
  SDJWTIssuer :: "bool \<Rightarrow> pydict \<Rightarrow> 'k \<Rightarrow> 'k option \<Rightarrow> pyval \<Rightarrow> error + issuer_obj"
  SDJWTHolder :: "string \<Rightarrow> error + 'h"
  create_presentation :: "'h \<Rightarrow> pyval \<Rightarrow> pyval \<Rightarrow> pyval \<Rightarrow> 'k option \<Rightarrow> error + holder_obj"
  SDJWTVerifier :: "string \<Rightarrow> (string \<Rightarrow> error + 'k) \<Rightarrow> pyval \<Rightarrow> pyval \<Rightarrow> error + 'v"
  get_verified_payload :: "'v \<Rightarrow> error + pyval"
  get_jwk :: "pyval \<Rightarrow> bool \<Rightarrow> pyval \<Rightarrow> error + 'k demo_keys"
  load_yaml_example :: "string list \<Rightarrow> error + pydict"
  markdown_disclosures :: "pyval \<Rightarrow> pyval \<Rightarrow> error + pyval"
  markdown_decoy_digests :: "string list \<Rightarrow> error + pyval"
  format_for_example :: "pyval \<Rightarrow> string \<Rightarrow> error + string"
  format_for_testcase :: "pyval \<Rightarrow> string \<Rightarrow> error + string"

text \<open>
  What outlives a call of \<open>generate_test_case_data\<close>: the class attribute
  \<open>SDJWTIssuer.unsafe_randomness\<close>, the directories that exist and the files written (in
  the order of the writes).  A path is the list of its components.
\<close>

record world =
  unsafe_randomness :: bool
  dirs :: "string list list"
  files :: "(string list \<times> string) list"

section \<open>Issuing, presenting and verifying (lines 45 to 88)\<close>

definition holder_binding :: "pydict \<Rightarrow> bool" where
  "holder_binding testcase = truthy (get_default testcase ''holder_binding'' (PBool False))"

text \<open>\<open>settings["holder_binding_nonce"] if testcase.get("holder_binding", False) else None\<close>\<close>

definition nonce_arg :: "pydict \<Rightarrow> pydict \<Rightarrow> error + pyval" where
  "nonce_arg settings testcase =
     (if holder_binding testcase then subscript settings ''holder_binding_nonce'' else Inr PNone)"

text \<open>\<open>settings["identifiers"]["verifier"] if testcase.get("holder_binding", False) else None\<close>\<close>

definition audience_arg :: "pydict \<Rightarrow> pydict \<Rightarrow> error + pyval" where
  "audience_arg settings testcase =
     (if holder_binding testcase
      then and_then (subscript settings ''identifiers'') (\<lambda>ids. subscript_val ids ''verifier'')
      else Inr PNone)"

text \<open>\<open>demo_keys["holder_key"] if testcase.get("holder_binding", False) else None\<close>\<close>

definition holder_key_arg :: "'k demo_keys \<Rightarrow> pydict \<Rightarrow> 'k option" where
  "holder_key_arg demo testcase =
     (if holder_binding testcase then Some (holder_key demo) else None)"

text \<open>
  The three engine calls.  The Holder is built from the Issuer's \<open>combined_sd_jwt_iid\<close>,
  the Verifier from the Holder's \<open>combined_presentation\<close>, the callback, and the expected
  audience and nonce.  The Issuer is constructed after line 45 has set the class
  attribute, so its flag argument is \<open>True\<close>.
\<close>

definition run_engines ::
  "('k, 'h, 'v) engines \<Rightarrow> pydict \<Rightarrow> pydict \<Rightarrow> pydict \<Rightarrow> 'k demo_keys \<Rightarrow> pyval
     \<Rightarrow> error + (issuer_obj \<times> holder_obj \<times> pyval)" where
  "run_engines E settings testcase claims demo use_decoys =
     and_then (SDJWTIssuer E True claims (issuer_key demo) (holder_key_arg demo testcase) use_decoys)
       (\<lambda>sdjwt_at_issuer.
     and_then (SDJWTHolder E (combined_sd_jwt_iid sdjwt_at_issuer)) (\<lambda>holder0.
     and_then (subscript testcase ''holder_disclosed_claims'') (\<lambda>disclosed.
     and_then (nonce_arg settings testcase) (\<lambda>nonce.
     and_then (audience_arg settings testcase) (\<lambda>aud.
     and_then (create_presentation E holder0 disclosed nonce aud (holder_key_arg demo testcase))
       (\<lambda>sdjwt_at_holder.
     and_then (audience_arg settings testcase) (\<lambda>expected_aud.
     and_then (nonce_arg settings testcase) (\<lambda>expected_nonce.
     and_then (SDJWTVerifier E (combined_presentation sdjwt_at_holder)
                 (cb_get_issuer_key claims (issuer_public_key demo)) expected_aud expected_nonce)
       (\<lambda>sdjwt_at_verifier.
     and_then (get_verified_payload E sdjwt_at_verifier) (\<lambda>verified.
     Inr (sdjwt_at_issuer, sdjwt_at_holder, verified)))))))))))"

section \<open>The artifacts and the files (lines 92 to 179)\<close>

text \<open>
  An entry of \<open>_artifacts\<close> is a 3-tuple \<open>(data, description, ftype)\<close>.  The loop tests the
  entry itself against \<open>None\<close>, so an entry is an option here: the script only ever stores
  tuples (\<open>Some\<close>), also when the data inside the tuple is \<open>None\<close>.
\<close>

type_synonym artifact = "(pyval \<times> string \<times> string) option"

text \<open>\<open>_artifacts[key] = item\<close> on the insertion-ordered dictionary.\<close>

definition art_set :: "(string \<times> artifact) list \<Rightarrow> string \<Rightarrow> artifact \<Rightarrow> (string \<times> artifact) list" where
  "art_set d k v =
     (if k \<in> fst ` set d then map (\<lambda>(k', v'). if k' = k then (k', v) else (k', v')) d
      else d @ [(k, v)])"

definition base_artifacts ::
  "pydict \<Rightarrow> issuer_obj \<Rightarrow> holder_obj \<Rightarrow> pyval \<Rightarrow> error + (string \<times> artifact) list" where
  "base_artifacts testcase sdjwt_at_issuer sdjwt_at_holder verified =
     and_then (subscript testcase ''user_claims'') (\<lambda>uc.
     Inr [(''user_claims'', Some (uc, ''User Claims'', ''json'')),
          (''sd_jwt_payload'',
             Some (sd_jwt_payload sdjwt_at_issuer, ''Payload of the SD-JWT'', ''json'')),
          (''sd_jwt_serialized'',
             Some (PStr (serialized_sd_jwt sdjwt_at_issuer), ''Serialized SD-JWT'', ''txt'')),
          (''combined_issuance'',
             Some (PStr (combined_sd_jwt_iid sdjwt_at_issuer),
                   ''Combined SD-JWT and Disclosures'', ''txt'')),
          (''hb_jwt_payload'',
             Some (if truthy (get_none testcase ''holder_binding'')
                   then holder_binding_jwt_payload sdjwt_at_holder else PNone,
                   ''Payload of the Holder Binding JWT'', ''json'')),
          (''hb_jwt_serialized'',
             Some (serialized_holder_binding_jwt sdjwt_at_holder,
                   ''Serialized Holder Binding JWT'', ''txt'')),
          (''combined_presentation'',
             Some (PStr (combined_presentation sdjwt_at_holder),
                   ''Combined representation of SD-JWT and HS-Disclosures'', ''txt'')),
          (''verified_contents'',
             Some (verified, ''Verified released contents of the SD-JWT'', ''json''))])"

text \<open>Lines 133 to 142: the disclosures, for an example only.\<close>

definition add_disclosures ::
  "('k, 'h, 'v) engines \<Rightarrow> string \<Rightarrow> holder_obj \<Rightarrow> (string \<times> artifact) list
     \<Rightarrow> error + (string \<times> artifact) list" where
  "add_disclosures E type sdjwt_at_holder arts =
     (if type = ''example''
      then and_then (markdown_disclosures E (hash_to_decoded_disclosure sdjwt_at_holder)
                       (hash_to_disclosure sdjwt_at_holder)) (\<lambda>md.
           Inr (art_set arts ''disclosures'' (Some (md, ''Payloads of the II-Disclosures'', ''md''))))
      else Inr arts)"

text \<open>Lines 144 to 157: the decoy digests, when decoys were used.\<close>

definition add_decoys ::
  "('k, 'h, 'v) engines \<Rightarrow> string \<Rightarrow> pyval \<Rightarrow> issuer_obj \<Rightarrow> (string \<times> artifact) list
     \<Rightarrow> error + (string \<times> artifact) list" where
  "add_decoys E type use_decoys sdjwt_at_issuer arts =
     (if truthy use_decoys
      then (if type = ''example''
            then and_then (markdown_decoy_digests E (decoy_digests sdjwt_at_issuer)) (\<lambda>md.
                 Inr (art_set arts ''decoy_digests'' (Some (md, ''Decoy Claims'', ''md''))))
            else Inr (art_set arts ''decoy_digests''
                        (Some (PList (map PStr (decoy_digests sdjwt_at_issuer)),
                               ''Decoy Claims'', ''json''))))
      else Inr arts)"

definition make_artifacts ::
  "('k, 'h, 'v) engines \<Rightarrow> pydict \<Rightarrow> string \<Rightarrow> pyval \<Rightarrow> issuer_obj \<Rightarrow> holder_obj \<Rightarrow> pyval
     \<Rightarrow> error + (string \<times> artifact) list" where
  "make_artifacts E testcase type use_decoys sdjwt_at_issuer sdjwt_at_holder verified =
     and_then (base_artifacts testcase sdjwt_at_issuer sdjwt_at_holder verified) (\<lambda>arts.
     and_then (add_disclosures E type sdjwt_at_holder arts) (\<lambda>arts.
     add_decoys E type use_decoys sdjwt_at_issuer arts))"

definition formatter ::
  "('k, 'h, 'v) engines \<Rightarrow> string \<Rightarrow> pyval \<Rightarrow> string \<Rightarrow> error + string" where
  "formatter E type = (if type = ''example'' then format_for_example E else format_for_testcase E)"

text \<open>
  The loop of lines 172 to 179: an entry that is \<open>None\<close> is skipped, any other is unpacked
  and written to \<open>output_dir / f"{key}.{ftype}"\<close>.  The file is opened for writing, and so
  emptied, before the formatter runs: when the formatter raises, the file is left empty
  and the loop ends there.
\<close>

fun write_artifacts ::
  "(pyval \<Rightarrow> string \<Rightarrow> error + string) \<Rightarrow> string list \<Rightarrow> (string \<times> artifact) list
     \<Rightarrow> (string list \<times> string) list \<Rightarrow> (error + unit) \<times> (string list \<times> string) list" where
  "write_artifacts fmt output_dir [] fs = (Inr (), fs)"
| "write_artifacts fmt output_dir ((key, None) # rest) fs = write_artifacts fmt output_dir rest fs"
| "write_artifacts fmt output_dir ((key, Some (data, descr, ftype)) # rest) fs =
     (case fmt data ftype of
        Inl e \<Rightarrow> (Inl e, fs @ [(output_dir @ [key @ ''.'' @ ftype], [])])
      | Inr txt \<Rightarrow>
          write_artifacts fmt output_dir rest (fs @ [(output_dir @ [key @ ''.'' @ ftype], txt)]))"

section \<open>\<open>generate_test_case_data\<close>\<close>

text \<open>
  The whole function.  It returns nothing; its result here is the exception it ended with,
  if any, and the world it leaves.  Line 45 stores \<open>True\<close> in the class attribute before
  the Issuer is constructed, and the attribute keeps that value whatever happens next.
  \<open>testcase_path.parent\<close> is the path without its last component.
\<close>

definition generate_test_case_data ::
  "('k, 'h, 'v) engines \<Rightarrow> pydict \<Rightarrow> string list \<Rightarrow> string \<Rightarrow> world \<Rightarrow> (error + unit) \<times> world" where
  "generate_test_case_data E settings testcase_path type w =
     (case
        and_then (subscript settings ''random_seed'') (\<lambda>seed.
        and_then (subscript settings ''key_settings'') (\<lambda>ks.
        and_then (get_jwk E ks True seed) (\<lambda>demo.
        and_then (load_yaml_example E testcase_path) (\<lambda>testcase.
        and_then (make_claims settings testcase) (\<lambda>claims.
        Inr (demo, testcase, get_default testcase ''add_decoy_claims'' (PBool False), claims))))))
      of Inl e \<Rightarrow> (Inl e, w)
       | Inr (demo, testcase, use_decoys, claims) \<Rightarrow>
          (let w1 = w\<lparr>unsafe_randomness := True\<rparr> in
           case
             and_then (run_engines E settings testcase claims demo use_decoys) (\<lambda>(i, h, verified).
             and_then (make_artifacts E testcase type use_decoys i h verified) (\<lambda>arts.
             if butlast testcase_path \<in> set (dirs w1) then Inr arts
             else Inl (SystemExit ''Output directory does not exist.'')))
           of Inl e \<Rightarrow> (Inl e, w1)
            | Inr arts \<Rightarrow>
               (case write_artifacts (formatter E type) (butlast testcase_path) arts (files w1) of
                  (r, fs) \<Rightarrow> (r, w1\<lparr>files := fs\<rparr>))))"

section \<open>The engines, modelled from the specification\<close>

text \<open>
  The packages \<open>sd_jwt.issuer\<close>, \<open>sd_jwt.holder\<close> and \<open>sd_jwt.verifier\<close> are modelled from
  the specification (sections 3, 4 and 6).  Hashing, signing, key handling, base64url and
  JSON encoding and the source of randomness are services the core calls; they are the
  fields of \<open>primitives\<close>.
\<close>

subsection \<open>Claim trees, paths and disclosures\<close>

text \<open>
  Modelled from the spec: the Claim Tree of section 3 as the tagged variant of section 9
  (object, array, scalar, placeholder).  An object carries its plain claims and the list of
  digest placeholders attached to it; an array element that is selectively disclosable is
  replaced in place by \<open>CHole\<close>.
\<close>

datatype ctree =
    CNone
  | CBool bool
  | CInt int
  | CStr string
  | CArr "ctree list"
  | CObj "(string \<times> ctree) list" "string list"
  | CHole string

datatype step = Key string | Index nat

type_synonym path = "step list"

text \<open>
  Modelled from the spec: a Disclosure is salt, optional claim name (absent for an array
  element) and value; on the wire it is the encoding of that triple, and its digest is
  the hash of the encoding.
\<close>

type_synonym disclosure = "string \<times> string option \<times> ctree"

text \<open>
  Modelled from the spec: the payload of the Signed Object is the claim tree with
  placeholders (the registered claims \<open>iss\<close>, \<open>iat\<close>, \<open>exp\<close> are plain claims of it), with
  the digest-algorithm identifier and the reference to the Holder's public key embedded.
\<close>

record 'k sd_payload =
  claim_tree :: ctree
  sd_alg :: string
  holder_key_ref :: "'k option"

text \<open>Modelled from the spec: the payload of the Holder-Binding Object.\<close>

record hb_payload =
  hb_nonce :: pyval
  hb_audience :: pyval
  hb_issued_at :: int

text \<open>
  Modelled from the spec: the external collaborators of section 1.  \<open>random_salt\<close> is the
  provided randomness, read at increasing positions.
\<close>

record 'k primitives =
  hash :: "string \<Rightarrow> string"
  random_salt :: "nat \<Rightarrow> string"
  encode_disclosure :: "disclosure \<Rightarrow> string"
  decode_disclosure :: "string \<Rightarrow> disclosure option"
  encode_payload :: "'k sd_payload \<Rightarrow> string"
  decode_payload :: "string \<Rightarrow> 'k sd_payload option"
  encode_binding :: "hb_payload \<Rightarrow> string"
  decode_binding :: "string \<Rightarrow> hb_payload option"
  sign :: "'k \<Rightarrow> string \<Rightarrow> error + string"
  verify_sig :: "'k \<Rightarrow> string \<Rightarrow> string \<Rightarrow> bool"
  public_of :: "'k \<Rightarrow> 'k"
  payload_json :: "'k sd_payload \<Rightarrow> pyval"
  binding_json :: "hb_payload \<Rightarrow> pyval"

text \<open>
  Modelled from the spec: the configuration surface of section 6, passed explicitly: the
  digest-algorithm identifier, the encoded header with the signature algorithm, the
  disclosure policy (the paths that become selectively disclosable), the number of decoys
  to add at each object or array, and the Verifier's clock and tolerance.
\<close>

record config =
  sd_alg_id :: string
  jws_header :: string
  policy :: "path list"
  decoy_count :: "path \<Rightarrow> nat"
  now :: int
  tolerance :: int

subsection \<open>The combined artifact grammar\<close>

text \<open>
  Modelled from the spec: section 6.  The segments of a combined artifact are joined with
  a tilde, the three parts of a signed object with a dot; the last segment of a combined
  artifact is the Holder-Binding Object, empty when there is none.
\<close>

fun join_with :: "char \<Rightarrow> string list \<Rightarrow> string" where
  "join_with c [] = []"
| "join_with c [w] = w"
| "join_with c (w # v # ws) = w @ c # join_with c (v # ws)"

fun split_on :: "char \<Rightarrow> string \<Rightarrow> string list" where
  "split_on c [] = [[]]"
| "split_on c (x # xs) =
     (if x = c then [] # split_on c xs
      else (case split_on c xs of [] \<Rightarrow> [[x]] | w # ws \<Rightarrow> (x # w) # ws))"

definition compact :: "string \<Rightarrow> string \<Rightarrow> string \<Rightarrow> string" where
  "compact header body signature = join_with (CHR ''.'') [header, body, signature]"

definition parse_compact :: "string \<Rightarrow> error + (string \<times> string \<times> string)" where
  "parse_compact s =
     (case split_on (CHR ''.'') s of
        [h, b, g] \<Rightarrow> Inr (h, b, g)
      | _ \<Rightarrow> Inl EncodingError)"

definition combine :: "string \<Rightarrow> string list \<Rightarrow> string option \<Rightarrow> string" where
  "combine signed_object ds hb =
     join_with (CHR ''~'') (signed_object # ds @ [case hb of None \<Rightarrow> [] | Some b \<Rightarrow> b])"

definition parse_combined :: "string \<Rightarrow> error + (string \<times> string list \<times> string option)" where
  "parse_combined s =
     (case split_on (CHR ''~'') s of
        [] \<Rightarrow> Inl EncodingError
      | [_] \<Rightarrow> Inl EncodingError
      | so # rest \<Rightarrow>
          Inr (so, butlast rest, if last rest = [] then None else Some (last rest)))"

subsection \<open>The Issuer Engine\<close>

text \<open>
  Modelled from the spec: section 4.2.  The state of the traversal is the position in the
  provided randomness, the Disclosures in generation order and the decoy digests.
\<close>

record issue_state =
  next_salt :: nat
  issued :: "disclosure list"
  decoys :: "string list"

text \<open>
  Modelled from the spec: \<open>digestOf\<close> of section 4.1, the hash of the encoded Disclosure.
\<close>

definition digest_of :: "'k primitives \<Rightarrow> disclosure \<Rightarrow> string" where
  "digest_of prim d = hash prim (encode_disclosure prim d)"

text \<open>
  Modelled from the spec: a Disclosure is made from a fresh salt, its digest is recorded
  and returned to stand in the claim's place.
\<close>

definition disclose ::
  "'k primitives \<Rightarrow> string option \<Rightarrow> ctree \<Rightarrow> issue_state \<Rightarrow> string \<times> issue_state" where
  "disclose prim key val st =
     (let d = (random_salt prim (next_salt st), key, val)
      in (digest_of prim d, st\<lparr>next_salt := Suc (next_salt st), issued := issued st @ [d]\<rparr>))"

text \<open>
  Modelled from the spec: a decoy digest is a digest over a random salt and a random
  value, with the same hash and the same encoding as a real one, and with no Disclosure.
\<close>

definition decoy_digest :: "'k primitives \<Rightarrow> nat \<Rightarrow> string" where
  "decoy_digest prim n =
     digest_of prim (random_salt prim n, None, CStr (random_salt prim (Suc n)))"

fun make_decoys :: "'k primitives \<Rightarrow> nat \<Rightarrow> issue_state \<Rightarrow> string list \<times> issue_state" where
  "make_decoys prim 0 st = ([], st)"
| "make_decoys prim (Suc n) st =
     (let d = decoy_digest prim (next_salt st);
          (ds, st') = make_decoys prim n
                        (st\<lparr>next_salt := Suc (Suc (next_salt st)), decoys := decoys st @ [d]\<rparr>)
      in (d # ds, st'))"

text \<open>
  Modelled from the spec: the policy selects the paths that become selectively
  disclosable.  The registered claims \<open>iss\<close>, \<open>iat\<close> and \<open>exp\<close> of the claim set are
  assembled into the payload as they are (section 4.2), and the Verifier reads them there
  before any Disclosure is looked at (section 4.4, steps 2 and 3): they stay plain.
\<close>

definition registered :: "path list" where
  "registered = [[Key ''iss''], [Key ''iat''], [Key ''exp'']]"

definition selected :: "config \<Rightarrow> path \<Rightarrow> bool" where
  "selected cfg p \<longleftrightarrow> p \<in> set (policy cfg) \<and> p \<notin> set registered"

text \<open>
  Modelled from the spec: the recursive traversal.  A claim is first traversed itself
  (nested objects and arrays), then, if the policy selects its path, replaced by the
  digest of a new Disclosure: in the placeholder list of its object, or in place in its
  array.  Decoys are added after the real placeholders of the object or array.
\<close>

fun issue_val :: "'k primitives \<Rightarrow> config \<Rightarrow> path \<Rightarrow> pyval \<Rightarrow> issue_state \<Rightarrow> ctree \<times> issue_state"
and issue_list ::
  "'k primitives \<Rightarrow> config \<Rightarrow> path \<Rightarrow> nat \<Rightarrow> pyval list \<Rightarrow> issue_state \<Rightarrow> ctree list \<times> issue_state"
and issue_entries ::
  "'k primitives \<Rightarrow> config \<Rightarrow> path \<Rightarrow> (string \<times> pyval) list \<Rightarrow> issue_state
     \<Rightarrow> ((string \<times> ctree) list \<times> string list) \<times> issue_state" where
  "issue_val prim cfg pth PNone st = (CNone, st)"
| "issue_val prim cfg pth (PBool b) st = (CBool b, st)"
| "issue_val prim cfg pth (PInt i) st = (CInt i, st)"
| "issue_val prim cfg pth (PStr s) st = (CStr s, st)"
| "issue_val prim cfg pth (PList xs) st =
     (let (ys, st1) = issue_list prim cfg pth 0 xs st;
          (ds, st2) = make_decoys prim (decoy_count cfg pth) st1
      in (CArr (ys @ map CHole ds), st2))"
| "issue_val prim cfg pth (PDict es) st =
     (let ((plain, digs), st1) = issue_entries prim cfg pth es st;
          (ds, st2) = make_decoys prim (decoy_count cfg pth) st1
      in (CObj plain (digs @ ds), st2))"
| "issue_list prim cfg pth i [] st = ([], st)"
| "issue_list prim cfg pth i (x # xs) st =
     (let (y, st1) = issue_val prim cfg (pth @ [Index i]) x st;
          (y', st2) = (if selected cfg (pth @ [Index i])
                       then (let (d, st') = disclose prim None y st1 in (CHole d, st'))
                       else (y, st1));
          (ys, st3) = issue_list prim cfg pth (Suc i) xs st2
      in (y' # ys, st3))"
| "issue_entries prim cfg pth [] st = (([], []), st)"
| "issue_entries prim cfg pth ((k, v) # es) st =
     (let (y, st1) = issue_val prim cfg (pth @ [Key k]) v st
      in if selected cfg (pth @ [Key k])
         then (let (d, st2) = disclose prim (Some k) y st1;
                   ((plain, digs), st3) = issue_entries prim cfg pth es st2
               in ((plain, d # digs), st3))
         else (let ((plain, digs), st3) = issue_entries prim cfg pth es st1
               in (((k, y) # plain, digs), st3)))"

text \<open>
  Modelled from the spec: a policy that requests disclosure of a path that does not exist
  in the claim tree is a \<open>PolicyError\<close>.
\<close>

fun path_exists :: "path \<Rightarrow> pyval \<Rightarrow> bool" where
  "path_exists [] v = True"
| "path_exists (Key k # p) (PDict es) =
     (case map_of es k of None \<Rightarrow> False | Some v \<Rightarrow> path_exists p v)"
| "path_exists (Index i # p) (PList xs) = (i < length xs \<and> path_exists p (xs ! i))"
| "path_exists (s # p) v = False"

definition policy_ok :: "config \<Rightarrow> pyval \<Rightarrow> bool" where
  "policy_ok cfg claims = list_all (\<lambda>p. p \<noteq> [] \<and> path_exists p claims) (policy cfg)"

text \<open>Modelled from the spec: what the Issuer Engine gives its caller (section 6).\<close>

record 'k issuance =
  iss_payload :: "'k sd_payload"
  iss_signature :: string
  iss_signed_object :: string
  iss_disclosures :: "disclosure list"
  iss_decoys :: "string list"
  iss_combined :: string

text \<open>
  Modelled from the spec: check the policy, traverse, assemble the payload (claim tree,
  digest-algorithm identifier, Holder key reference when holder binding is requested),
  sign it, and serialise the signed object followed by the Disclosures in generation
  order; issuance ends with the dangling separator.
\<close>

definition issuer_engine ::
  "'k primitives \<Rightarrow> config \<Rightarrow> pyval \<Rightarrow> 'k \<Rightarrow> 'k option \<Rightarrow> error + 'k issuance" where
  "issuer_engine prim cfg claims key hkey =
     (if \<not> policy_ok cfg claims then Inl PolicyError
      else
        (let (tree, st) = issue_val prim cfg [] claims
                            \<lparr>next_salt = 0, issued = [], decoys = []\<rparr>;
             payload = \<lparr>claim_tree = tree, sd_alg = sd_alg_id cfg,
                        holder_key_ref = map_option (public_of prim) hkey\<rparr>;
             body = encode_payload prim payload
         in and_then (sign prim key (jws_header cfg @ CHR ''.'' # body)) (\<lambda>sg.
            let so = compact (jws_header cfg) body sg
            in Inr \<lparr>iss_payload = payload, iss_signature = sg, iss_signed_object = so,
                     iss_disclosures = issued st, iss_decoys = decoys st,
                     iss_combined = combine so (map (encode_disclosure prim) (issued st)) None\<rparr>)))"

subsection \<open>The Digest Index and the reconstruction walk\<close>

text \<open>
  Modelled from the spec: \<open>buildIndex\<close> of section 4.1.  Each Disclosure received is
  decoded and filed under the hash of its encoding; two Disclosures with one digest are a
  \<open>DuplicateDigestError\<close>, a segment that does not decode is an \<open>EncodingError\<close>.
\<close>

fun build_index :: "'k primitives \<Rightarrow> string list \<Rightarrow> error + (string \<times> disclosure) list" where
  "build_index prim [] = Inr []"
| "build_index prim (s # ss) =
     (case decode_disclosure prim s of
        None \<Rightarrow> Inl EncodingError
      | Some d \<Rightarrow>
          and_then (build_index prim ss) (\<lambda>rest.
            if hash prim s \<in> fst ` set rest then Inl DuplicateDigestError
            else Inr ((hash prim s, d) # rest)))"

text \<open>
  Modelled from the spec: step 5 of section 4.4, the recursive walk that replaces every
  digest placeholder by the value of the matching Disclosure, and walks that value in
  turn.  A placeholder without an index entry (a withheld claim or a decoy) contributes
  nothing: the scenario of section 8 withholds \<open>family_name\<close> and expects the other claims
  back.  The walk also returns where it found each digest it resolved; the Holder uses
  the paths to match a selection, the Verifier the digests to reject a Disclosure that no
  placeholder refers to.

  A value reached through a digest may hold digests again.  The first argument after
  the index bounds how many Disclosures may be nested in one another; a chain longer
  than the number of Disclosures goes round in a circle, and the artifact is malformed.
\<close>

function walk ::
  "(string \<Rightarrow> disclosure option) \<Rightarrow> nat \<Rightarrow> path \<Rightarrow> ctree
     \<Rightarrow> error + (pyval \<times> (path \<times> string) list)"
and walk_list ::
  "(string \<Rightarrow> disclosure option) \<Rightarrow> nat \<Rightarrow> path \<Rightarrow> nat \<Rightarrow> ctree list
     \<Rightarrow> error + (pyval list \<times> (path \<times> string) list)"
and walk_entries ::
  "(string \<Rightarrow> disclosure option) \<Rightarrow> nat \<Rightarrow> path \<Rightarrow> (string \<times> ctree) list
     \<Rightarrow> error + (pydict \<times> (path \<times> string) list)"
and walk_digests ::
  "(string \<Rightarrow> disclosure option) \<Rightarrow> nat \<Rightarrow> path \<Rightarrow> string list
     \<Rightarrow> error + (pydict \<times> (path \<times> string) list)" where
  "walk idx n pth CNone = Inr (PNone, [])"
| "walk idx n pth (CBool b) = Inr (PBool b, [])"
| "walk idx n pth (CInt i) = Inr (PInt i, [])"
| "walk idx n pth (CStr s) = Inr (PStr s, [])"
| "walk idx n pth (CArr xs) =
     and_then (walk_list idx n pth 0 xs) (\<lambda>(ys, l). Inr (PList ys, l))"
| "walk idx n pth (CObj es ds) =
     and_then (walk_entries idx n pth es) (\<lambda>(plain, l1).
     and_then (walk_digests idx n pth ds) (\<lambda>(disclosed, l2).
     Inr (PDict (plain @ disclosed), l1 @ l2)))"
| "walk idx n pth (CHole d) = Inl EncodingError"
| "walk_list idx n pth i [] = Inr ([], [])"
| "walk_list idx n pth i (x # xs) =
     (case x of
        CHole d \<Rightarrow>
          (case idx d of
             None \<Rightarrow> walk_list idx n pth (Suc i) xs
           | Some (salt, key, v) \<Rightarrow>
               (case n of
                  0 \<Rightarrow> Inl EncodingError
                | Suc m \<Rightarrow>
                    (case key of
                       Some k \<Rightarrow> Inl EncodingError
                     | None \<Rightarrow>
                         and_then (walk idx m (pth @ [Index i]) v) (\<lambda>(y, l1).
                         and_then (walk_list idx n pth (Suc i) xs) (\<lambda>(ys, l2).
                         Inr (y # ys, (pth @ [Index i], d) # l1 @ l2))))))
      | _ \<Rightarrow>
          and_then (walk idx n (pth @ [Index i]) x) (\<lambda>(y, l1).
          and_then (walk_list idx n pth (Suc i) xs) (\<lambda>(ys, l2).
          Inr (y # ys, l1 @ l2))))"
| "walk_entries idx n pth [] = Inr ([], [])"
| "walk_entries idx n pth ((k, v) # es) =
     and_then (walk idx n (pth @ [Key k]) v) (\<lambda>(y, l1).
     and_then (walk_entries idx n pth es) (\<lambda>(ys, l2).
     Inr ((k, y) # ys, l1 @ l2)))"
| "walk_digests idx n pth [] = Inr ([], [])"
| "walk_digests idx n pth (d # ds) =
     (case idx d of
        None \<Rightarrow> walk_digests idx n pth ds
      | Some (salt, key, v) \<Rightarrow>
          (case n of
             0 \<Rightarrow> Inl EncodingError
           | Suc m \<Rightarrow>
               (case key of
                  None \<Rightarrow> Inl EncodingError
                | Some k \<Rightarrow>
                    and_then (walk idx m (pth @ [Key k]) v) (\<lambda>(y, l1).
                    and_then (walk_digests idx n pth ds) (\<lambda>(ys, l2).
                    Inr ((k, y) # ys, (pth @ [Key k], d) # l1 @ l2))))))"
  by pat_completeness auto
termination
  by (relation "inv_image (less_than <*lex*> less_than <*lex*> less_than)
        (\<lambda>x. case x of
           Inl (Inl (idx, n, pth, t)) \<Rightarrow> (n, size t + 1, 0)
         | Inl (Inr (idx, n, pth, i, xs)) \<Rightarrow> (n, size_list size xs + 1, 0)
         | Inr (Inl (idx, n, pth, es)) \<Rightarrow> (n, size_list (size_prod (\<lambda>_. 0) size) es + 1, 0)
         | Inr (Inr (idx, n, pth, ds)) \<Rightarrow> (n, 0, length ds))") auto

subsection \<open>The Holder Engine\<close>

text \<open>Modelled from the spec: what the Holder Engine gives its caller.\<close>

record presentation =
  pres_combined :: string
  pres_selected :: "string list"
  pres_binding :: "(hb_payload \<times> string) option"
  pres_index :: "(string \<times> disclosure) list"

text \<open>
  Modelled from the spec: a signed object is read without its signature being verified
  (that is the Verifier's work): its three parts, and the payload decoded from the second.
\<close>

definition read_signed_object ::
  "'k primitives \<Rightarrow> string \<Rightarrow> error + (string \<times> string \<times> string \<times> 'k sd_payload)" where
  "read_signed_object prim so =
     and_then (parse_compact so) (\<lambda>(h, b, g).
     case decode_payload prim b of
       None \<Rightarrow> Inl EncodingError
     | Some payload \<Rightarrow> Inr (h, b, g, payload))"

text \<open>
  Modelled from the spec: the Holder-Binding Object of section 3, signed with the Holder's
  key over nonce, audience and issued-at.  It is built when the credential carries a
  Holder key; without a key to sign with that is a \<open>MissingBindingKeyError\<close>.
\<close>

definition make_binding ::
  "'k primitives \<Rightarrow> config \<Rightarrow> 'k sd_payload \<Rightarrow> pyval \<Rightarrow> pyval \<Rightarrow> 'k option
     \<Rightarrow> error + (hb_payload \<times> string) option" where
  "make_binding prim cfg payload nonce aud hkey =
     (case holder_key_ref payload of
        None \<Rightarrow> Inr None
      | Some pk \<Rightarrow>
          (case hkey of
             None \<Rightarrow> Inl MissingBindingKeyError
           | Some k \<Rightarrow>
               (let hb = \<lparr>hb_nonce = nonce, hb_audience = aud, hb_issued_at = now cfg\<rparr>;
                    body = encode_binding prim hb
                in and_then (sign prim k (jws_header cfg @ CHR ''.'' # body)) (\<lambda>sg.
                   Inr (Some (hb, compact (jws_header cfg) body sg))))))"

text \<open>
  Modelled from the spec: section 4.3.  The artifact is parsed, the Disclosures indexed
  and the claim tree walked to find the path of each; a selected path without a
  Disclosure is an \<open>UnknownClaimSelectedError\<close>.  The Disclosures whose path is selected
  are kept, in issuance order, and none is made up.
\<close>

definition holder_engine ::
  "'k primitives \<Rightarrow> config \<Rightarrow> string \<Rightarrow> path list \<Rightarrow> pyval \<Rightarrow> pyval \<Rightarrow> 'k option
     \<Rightarrow> error + presentation" where
  "holder_engine prim cfg combined selection nonce aud hkey =
     and_then (parse_combined combined) (\<lambda>(so, ds, hb).
     and_then (read_signed_object prim so) (\<lambda>(h, b, g, payload).
     and_then (build_index prim ds) (\<lambda>index.
     and_then (walk (map_of index) (length ds) [] (claim_tree payload)) (\<lambda>(v, located).
     if \<not> list_all (\<lambda>p. p \<in> fst ` set located) selection
     then Inl UnknownClaimSelectedError
     else
       (let selected =
              filter (\<lambda>s. list_ex (\<lambda>(p, d). d = hash prim s \<and> p \<in> set selection) located) ds
        in and_then (make_binding prim cfg payload nonce aud hkey) (\<lambda>binding.
           Inr \<lparr>pres_combined = combine so selected (map_option snd binding),
                 pres_selected = selected,
                 pres_binding = binding,
                 pres_index = index\<rparr>))))))"

text \<open>
  Modelled from the spec: the paths the Holder can select, one for each Disclosure the
  walk reaches.
\<close>

definition disclosable_paths :: "'k primitives \<Rightarrow> string \<Rightarrow> error + path list" where
  "disclosable_paths prim combined =
     and_then (parse_combined combined) (\<lambda>(so, ds, hb).
     and_then (read_signed_object prim so) (\<lambda>(h, b, g, payload).
     and_then (build_index prim ds) (\<lambda>index.
     and_then (walk (map_of index) (length ds) [] (claim_tree payload)) (\<lambda>(v, located).
     Inr (map fst located)))))"

subsection \<open>The Verifier Engine\<close>

text \<open>
  Modelled from the spec: step 2 of section 4.4.  The issuer identifier is the \<open>iss\<close> claim
  of the payload, not verified yet; a payload without one cannot be attributed.
\<close>

definition payload_issuer :: "'k sd_payload \<Rightarrow> error + string" where
  "payload_issuer payload =
     (case claim_tree payload of
        CObj es ds \<Rightarrow> (case map_of es ''iss'' of Some (CStr i) \<Rightarrow> Inr i | _ \<Rightarrow> Inl EncodingError)
      | _ \<Rightarrow> Inl EncodingError)"

text \<open>
  Modelled from the spec: step 3.  \<open>exp\<close> must not have passed and \<open>iat\<close> must not lie in
  the future, each with the configured tolerance.
\<close>

definition check_temporal :: "config \<Rightarrow> 'k sd_payload \<Rightarrow> error + unit" where
  "check_temporal cfg payload =
     (case claim_tree payload of
        CObj es ds \<Rightarrow>
          (case (map_of es ''exp'', map_of es ''iat'') of
             (Some (CInt e), Some (CInt i)) \<Rightarrow>
               if e + tolerance cfg < now cfg then Inl ExpiredCredentialError
               else if now cfg + tolerance cfg < i then Inl NotYetValidError
               else Inr ()
           | _ \<Rightarrow> Inl EncodingError)
      | _ \<Rightarrow> Inl EncodingError)"

text \<open>
  Modelled from the spec: step 6.  Binding is required when the caller expects an audience
  or a nonce; required and absent is a \<open>MissingBindingError\<close>.  A Holder-Binding Object
  that is present is verified against the Holder key of the payload, and its nonce,
  audience and freshness are compared with what the caller expects; any mismatch is a
  \<open>HolderBindingError\<close>.  Absent and not required is a valid state.
\<close>

definition check_binding ::
  "'k primitives \<Rightarrow> config \<Rightarrow> 'k sd_payload \<Rightarrow> string option \<Rightarrow> pyval \<Rightarrow> pyval \<Rightarrow> error + unit" where
  "check_binding prim cfg payload hb expected_aud expected_nonce =
     (case hb of
        None \<Rightarrow>
          if expected_aud \<noteq> PNone \<or> expected_nonce \<noteq> PNone then Inl MissingBindingError
          else Inr ()
      | Some b \<Rightarrow>
          (case holder_key_ref payload of
             None \<Rightarrow> Inl HolderBindingError
           | Some pk \<Rightarrow>
               (case parse_compact b of
                  Inl e \<Rightarrow> Inl HolderBindingError
                | Inr (h, body, g) \<Rightarrow>
                    if \<not> verify_sig prim pk (h @ CHR ''.'' # body) g then Inl HolderBindingError
                    else
                      (case decode_binding prim body of
                         None \<Rightarrow> Inl HolderBindingError
                       | Some hbp \<Rightarrow>
                           if hb_nonce hbp = expected_nonce \<and> hb_audience hbp = expected_aud
                              \<and> \<bar>now cfg - hb_issued_at hbp\<bar> \<le> tolerance cfg
                           then Inr ()
                           else Inl HolderBindingError))))"

text \<open>
  Modelled from the spec: section 4.4, steps 1 to 5 in their order: split the artifact,
  resolve the issuer key and verify the signature, check the temporal claims, build the
  Digest Index, walk the claim tree.  After the walk, a Disclosure whose digest no
  placeholder referred to is an \<open>UnresolvedDigestError\<close>.
\<close>

definition verify_claims ::
  "'k primitives \<Rightarrow> config \<Rightarrow> string \<Rightarrow> (string \<Rightarrow> error + 'k)
     \<Rightarrow> error + ('k sd_payload \<times> string option \<times> pyval)" where
  "verify_claims prim cfg combined resolve_issuer_key =
     and_then (parse_combined combined) (\<lambda>(so, ds, hb).
     and_then (read_signed_object prim so) (\<lambda>(h, b, g, payload).
     and_then (payload_issuer payload) (\<lambda>issuer.
     and_then (resolve_issuer_key issuer) (\<lambda>key.
     if \<not> verify_sig prim key (h @ CHR ''.'' # b) g then Inl InvalidSignatureError
     else
       and_then (check_temporal cfg payload) (\<lambda>_.
       and_then (build_index prim ds) (\<lambda>index.
       and_then (walk (map_of index) (length ds) [] (claim_tree payload)) (\<lambda>(v, located).
       if \<not> list_all (\<lambda>s. hash prim s \<in> snd ` set located) ds then Inl UnresolvedDigestError
       else Inr (payload, hb, v))))))))"

text \<open>
  Modelled from the spec: the Verifier Engine, steps 1 to 5 followed by step 6.  The
  output is the reconstructed claim set.
\<close>

definition verifier_engine ::
  "'k primitives \<Rightarrow> config \<Rightarrow> string \<Rightarrow> (string \<Rightarrow> error + 'k) \<Rightarrow> pyval \<Rightarrow> pyval
     \<Rightarrow> error + pyval" where
  "verifier_engine prim cfg combined resolve_issuer_key expected_aud expected_nonce =
     and_then (verify_claims prim cfg combined resolve_issuer_key) (\<lambda>(payload, hb, v).
     and_then (check_binding prim cfg payload hb expected_aud expected_nonce) (\<lambda>_.
     Inr v))"

section \<open>Equality of claim sets\<close>

text \<open>
  Two Python dictionaries are equal when they bind the same keys to equal values,
  whatever the order of insertion.  \<open>denote\<close> maps a value to what \<open>==\<close> compares: a
  dictionary becomes the mapping it represents (an association list is read by its first
  binding).
\<close>

datatype pysem = SNone | SBool bool | SInt int | SStr string | SList "pysem list" | SDict "string \<Rightarrow> pysem option"

primrec denote :: "pyval \<Rightarrow> pysem" where
  "denote PNone = SNone"
| "denote (PBool b) = SBool b"
| "denote (PInt i) = SInt i"
| "denote (PStr s) = SStr s"
| "denote (PList xs) = SList (map denote xs)"
| "denote (PDict es) = SDict (map_of (map (map_prod id denote) es))"

subsection \<open>What the reconstruction walk recovers from an issued tree\<close>

text \<open>
  An index agrees with a list of Disclosures and a list of decoy digests when it files
  each Disclosure under its digest and has nothing under a decoy digest.
\<close>

definition agrees ::
  "'k primitives \<Rightarrow> (string \<Rightarrow> disclosure option) \<Rightarrow> disclosure list \<Rightarrow> string list \<Rightarrow> bool" where
  "agrees prim idx new dec \<longleftrightarrow>
     (\<forall>d\<in>set new. idx (digest_of prim d) = Some d) \<and> (\<forall>x\<in>set dec. idx x = None)"

text \<open>
  The relation between a value and the tree issued for it: the traversal has appended
  its Disclosures and decoys to the state, the tree is not a bare placeholder, and under
  every index that agrees with them the walk returns a value equal to the original and
  reports exactly the digests of these Disclosures.  The same for the elements of an
  array and for the entries of an object.
\<close>

definition val_ok ::
  "'k primitives \<Rightarrow> pyval \<Rightarrow> ctree \<Rightarrow> issue_state \<Rightarrow> issue_state \<Rightarrow> bool" where
  "val_ok prim v t st st' \<longleftrightarrow>
     (\<forall>d. t \<noteq> CHole d) \<and>
     (\<exists>new dec. issued st' = issued st @ new \<and> decoys st' = decoys st @ dec \<and>
        (\<forall>idx n p. agrees prim idx new dec \<longrightarrow> length new \<le> n \<longrightarrow>
           (\<exists>w loc. walk idx n p t = Inr (w, loc) \<and> denote w = denote v \<and>
                     snd ` set loc = digest_of prim ` set new)))"

definition list_ok ::
  "'k primitives \<Rightarrow> pyval list \<Rightarrow> ctree list \<Rightarrow> issue_state \<Rightarrow> issue_state \<Rightarrow> bool" where
  "list_ok prim xs ys st st' \<longleftrightarrow>
     (\<exists>new dec. issued st' = issued st @ new \<and> decoys st' = decoys st @ dec \<and>
        (\<forall>idx n p j. agrees prim idx new dec \<longrightarrow> length new \<le> n \<longrightarrow>
           (\<exists>ws loc. walk_list idx n p j ys = Inr (ws, loc) \<and> map denote ws = map denote xs \<and>
                      snd ` set loc = digest_of prim ` set new)))"

definition entries_ok ::
  "'k primitives \<Rightarrow> config \<Rightarrow> path \<Rightarrow> (string \<times> pyval) list \<Rightarrow> (string \<times> ctree) list
     \<Rightarrow> string list \<Rightarrow> issue_state \<Rightarrow> issue_state \<Rightarrow> bool" where
  "entries_ok prim cfg pth es plain digs st st' \<longleftrightarrow>
     (\<forall>k\<in>fst ` set plain. \<not> selected cfg (pth @ [Key k])) \<and>
     (\<exists>new dec. issued st' = issued st @ new \<and> decoys st' = decoys st @ dec \<and>
        (\<forall>idx n p. agrees prim idx new dec \<longrightarrow> length new \<le> n \<longrightarrow>
           (\<exists>ws1 l1 ws2 l2.
              walk_entries idx n p plain = Inr (ws1, l1) \<and>
              walk_digests idx n p digs = Inr (ws2, l2) \<and>
              map fst ws1 = map fst plain \<and>
              map_of (map (map_prod id denote) (ws1 @ ws2)) = map_of (map (map_prod id denote) es) \<and>
              snd ` set (l1 @ l2) = digest_of prim ` set new)))"

section \<open>Assumptions on the external collaborators\<close>

text \<open>
  The separators of the artifact grammar do not occur in base64url text.
\<close>

definition clean :: "string \<Rightarrow> bool" where
  "clean s \<longleftrightarrow> CHR ''.'' \<notin> set s \<and> CHR ''~'' \<notin> set s"

text \<open>
  What the theorems assume of the external collaborators.  Encodings and signatures are
  base64url text; a signature made with a key verifies under its public key; the
  payload, the Disclosures and the Holder-Binding payload of the artifact at hand decode
  to what was encoded; no two digests of the artifact collide.
\<close>

definition encodings_clean :: "'k primitives \<Rightarrow> config \<Rightarrow> bool" where
  "encodings_clean prim cfg \<longleftrightarrow>
     clean (jws_header cfg) \<and> (\<forall>p. clean (encode_payload prim p)) \<and>
     (\<forall>d. clean (encode_disclosure prim d)) \<and> (\<forall>h. clean (encode_binding prim h)) \<and>
     (\<forall>k m s. sign prim k m = Inr s \<longrightarrow> clean s)"

definition signatures_verify :: "'k primitives \<Rightarrow> bool" where
  "signatures_verify prim \<longleftrightarrow>
     (\<forall>k m s. sign prim k m = Inr s \<longrightarrow> verify_sig prim (public_of prim k) m s)"

definition decodes :: "'k primitives \<Rightarrow> config \<Rightarrow> 'k issuance \<Rightarrow> pyval \<Rightarrow> pyval \<Rightarrow> bool" where
  "decodes prim cfg art nonce aud \<longleftrightarrow>
     decode_payload prim (encode_payload prim (iss_payload art)) = Some (iss_payload art) \<and>
     (\<forall>d\<in>set (iss_disclosures art).
        decode_disclosure prim (encode_disclosure prim d) = Some d) \<and>
     decode_binding prim
       (encode_binding prim \<lparr>hb_nonce = nonce, hb_audience = aud, hb_issued_at = now cfg\<rparr>)
       = Some \<lparr>hb_nonce = nonce, hb_audience = aud, hb_issued_at = now cfg\<rparr>"

definition collision_free :: "'k primitives \<Rightarrow> 'k issuance \<Rightarrow> bool" where
  "collision_free prim art \<longleftrightarrow>
     distinct (map (digest_of prim) (iss_disclosures art)) \<and>
     set (iss_decoys art) \<inter> digest_of prim ` set (iss_disclosures art) = {}"

text \<open>
  The claim set is within its validity window at the Verifier's clock, and the callback
  resolves its issuer to the public key of the signing key.
\<close>

definition currently_valid :: "config \<Rightarrow> pydict \<Rightarrow> bool" where
  "currently_valid cfg claims \<longleftrightarrow>
     0 \<le> tolerance cfg \<and>
     (\<exists>e t. map_of claims ''exp'' = Some (PInt e) \<and> map_of claims ''iat'' = Some (PInt t) \<and>
            now cfg \<le> e + tolerance cfg \<and> t \<le> now cfg + tolerance cfg)"

definition issuer_known :: "'k primitives \<Rightarrow> pydict \<Rightarrow> (string \<Rightarrow> error + 'k) \<Rightarrow> 'k \<Rightarrow> bool" where
  "issuer_known prim claims cb key \<longleftrightarrow>
     (\<exists>i. map_of claims ''iss'' = Some (PStr i) \<and> cb i = Inr (public_of prim key))"

section \<open>The engines as the script calls them\<close>

text \<open>
  Modelled from the spec: a disclosure selection is a set of claim paths or keys
  (section 4.3).  The test case gives it as a list whose items are a key or a list of
  keys and array positions.
\<close>

fun step_of :: "pyval \<Rightarrow> step option" where
  "step_of (PStr k) = Some (Key k)"
| "step_of (PInt i) = (if 0 \<le> i then Some (Index (nat i)) else None)"
| "step_of v = None"

fun path_of :: "pyval \<Rightarrow> path option" where
  "path_of (PStr k) = Some [Key k]"
| "path_of (PList xs) = those (map step_of xs)"
| "path_of v = None"

definition selection_paths :: "pyval \<Rightarrow> error + path list" where
  "selection_paths sel =
     (case sel of
        PList ps \<Rightarrow> (case those (map path_of ps) of None \<Rightarrow> Inl TypeError | Some l \<Rightarrow> Inr l)
      | _ \<Rightarrow> Inl TypeError)"

text \<open>
  Modelled from the spec: the constructors and methods of the three engine classes, with
  the arguments the script passes.  \<open>add_decoy_claims\<close> switches the decoy policy on; the
  attributes the script reads afterwards are filled from what the engines return.  The
  loaders and the formatting functions are those of \<open>tools\<close>.
\<close>

definition issuer_config :: "config \<Rightarrow> pyval \<Rightarrow> config" where
  "issuer_config cfg use_decoys = (if truthy use_decoys then cfg else cfg\<lparr>decoy_count := (\<lambda>p. 0)\<rparr>)"

definition issuer_object :: "'k primitives \<Rightarrow> 'k issuance \<Rightarrow> issuer_obj" where
  "issuer_object prim a =
     \<lparr>combined_sd_jwt_iid = iss_combined a,
      sd_jwt_payload = payload_json prim (iss_payload a),
      serialized_sd_jwt = iss_signed_object a,
      decoy_digests = iss_decoys a,
      issuer_internal = PList (map (\<lambda>d. PStr (encode_disclosure prim d)) (iss_disclosures a))\<rparr>"

definition holder_object :: "'k primitives \<Rightarrow> presentation \<Rightarrow> holder_obj" where
  "holder_object prim p =
     \<lparr>combined_presentation = pres_combined p,
      holder_binding_jwt_payload =
        (case pres_binding p of None \<Rightarrow> PNone | Some (hb, s) \<Rightarrow> binding_json prim hb),
      serialized_holder_binding_jwt =
        (case pres_binding p of None \<Rightarrow> PNone | Some (hb, s) \<Rightarrow> PStr s),
      hash_to_decoded_disclosure =
        PDict (map (\<lambda>(dg, salt, key, v).
                      (dg, PList [PStr salt, case key of None \<Rightarrow> PNone | Some k \<Rightarrow> PStr k]))
                 (pres_index p)),
      hash_to_disclosure =
        PDict (map (\<lambda>(dg, d). (dg, PStr (encode_disclosure prim d))) (pres_index p))\<rparr>"

definition spec_engines ::
  "'k primitives \<Rightarrow> config \<Rightarrow> ('k, string, pyval) engines \<Rightarrow> ('k, string, pyval) engines" where
  "spec_engines prim cfg tools =
     tools\<lparr>
       SDJWTIssuer := (\<lambda>flag claims key hkey use_decoys.
          and_then (issuer_engine prim (issuer_config cfg use_decoys) (PDict claims) key hkey)
            (\<lambda>a. Inr (issuer_object prim a))),
       SDJWTHolder := (\<lambda>combined.
          and_then (disclosable_paths prim combined) (\<lambda>ps. Inr combined)),
       create_presentation := (\<lambda>combined sel nonce aud hkey.
          and_then (selection_paths sel) (\<lambda>ps.
          and_then (holder_engine prim cfg combined ps nonce aud hkey) (\<lambda>p.
          Inr (holder_object prim p)))),
       SDJWTVerifier := (\<lambda>combined cb aud nonce. verifier_engine prim cfg combined cb aud nonce),
       get_verified_payload := Inr\<rparr>"

section \<open>A concrete run\<close>

text \<open>
  Stand-ins for the external collaborators: text with the separators replaced for
  base64url, a printed form for canonical JSON, a digest that keeps the head of the
  encoding (it starts with the salt), decoding by search among the values known to have
  been encoded, and a signature that names the key and the length of the signed text.
\<close>

definition sanitize :: "string \<Rightarrow> string" where
  "sanitize s = map (\<lambda>c. if c = CHR ''.'' \<or> c = CHR ''~'' then CHR ''_'' else c) s"

fun digits :: "nat \<Rightarrow> string" where
  "digits n = (if n < 10 then [''0123456789'' ! n]
               else digits (n div 10) @ [''0123456789'' ! (n mod 10)])"

declare digits.simps [simp del]

definition show_int :: "int \<Rightarrow> string" where
  "show_int i = (if i < 0 then CHR ''-'' # digits (nat (- i)) else digits (nat i))"

function show_tree :: "ctree \<Rightarrow> string"
and show_trees :: "ctree list \<Rightarrow> string"
and show_entries :: "(string \<times> ctree) list \<Rightarrow> string" where
  "show_tree CNone = ''null''"
| "show_tree (CBool b) = (if b then ''true'' else ''false'')"
| "show_tree (CInt i) = show_int i"
| "show_tree (CStr s) = CHR 0x22 # s @ [CHR 0x22]"
| "show_tree (CArr xs) = ''['' @ show_trees xs @ '']''"
| "show_tree (CObj es ds) = ''{'' @ show_entries es @ ''_sd:'' @ concat (map (\<lambda>d. d @ '','') ds) @ ''}''"
| "show_tree (CHole d) = ''<'' @ d @ ''>''"
| "show_trees [] = []"
| "show_trees (x # xs) = show_tree x @ '','' @ show_trees xs"
| "show_entries [] = []"
| "show_entries ((k, v) # es) = k @ '':'' @ show_tree v @ '','' @ show_entries es"
  by pat_completeness auto
termination
  by (relation "measure (\<lambda>x. case x of
           Inl t \<Rightarrow> size t
         | Inr (Inl xs) \<Rightarrow> size_list size xs
         | Inr (Inr es) \<Rightarrow> size_list (size_prod (\<lambda>_. 0) size) es)") auto

fun show_scalar :: "pyval \<Rightarrow> string" where
  "show_scalar PNone = ''null''"
| "show_scalar (PBool b) = (if b then ''true'' else ''false'')"
| "show_scalar (PInt i) = show_int i"
| "show_scalar (PStr s) = CHR 0x22 # s @ [CHR 0x22]"
| "show_scalar (PList xs) = ''[]''"
| "show_scalar (PDict es) = ''{}''"

definition table_decode :: "('a \<Rightarrow> string) \<Rightarrow> 'a list \<Rightarrow> string \<Rightarrow> 'a option" where
  "table_decode enc known s = find (\<lambda>x. enc x = s) known"

definition demo_encode_disclosure :: "disclosure \<Rightarrow> string" where
  "demo_encode_disclosure = (\<lambda>(salt, key, v).
     sanitize (''['' @ salt @ '','' @ (case key of None \<Rightarrow> [] | Some k \<Rightarrow> k @ '','')
               @ show_tree v @ '']''))"

definition demo_encode_payload :: "string sd_payload \<Rightarrow> string" where
  "demo_encode_payload p =
     sanitize (show_tree (claim_tree p) @ '';'' @ sd_alg p @ '';''
               @ (case holder_key_ref p of None \<Rightarrow> ''-'' | Some k \<Rightarrow> k))"

definition demo_encode_binding :: "hb_payload \<Rightarrow> string" where
  "demo_encode_binding h =
     sanitize (show_scalar (hb_nonce h) @ '';'' @ show_scalar (hb_audience h) @ '';''
               @ show_int (hb_issued_at h))"

definition demo_signature :: "string \<Rightarrow> string \<Rightarrow> string" where
  "demo_signature k m = sanitize (''sig-'' @ k @ ''-'' @ digits (length m))"

definition demo_primitives ::
  "disclosure list \<Rightarrow> string sd_payload list \<Rightarrow> hb_payload list \<Rightarrow> string primitives" where
  "demo_primitives ds ps hs =
     \<lparr>hash = (\<lambda>s. ''H'' @ take 6 s),
      random_salt = (\<lambda>n. CHR ''s'' # replicate n (CHR ''x'')),
      encode_disclosure = demo_encode_disclosure,
      decode_disclosure = table_decode demo_encode_disclosure ds,
      encode_payload = demo_encode_payload,
      decode_payload = table_decode demo_encode_payload ps,
      encode_binding = demo_encode_binding,
      decode_binding = table_decode demo_encode_binding hs,
      sign = (\<lambda>k m. Inr (demo_signature k m)),
      verify_sig = (\<lambda>pk m s. s = demo_signature pk m),
      public_of = (\<lambda>k. k),
      payload_json = (\<lambda>p. PDict [(''claims'', PStr (show_tree (claim_tree p))),
                                   (''_sd_alg'', PStr (sd_alg p))]),
      binding_json = (\<lambda>h. PDict [(''nonce'', hb_nonce h), (''aud'', hb_audience h),
                                   (''iat'', PInt (hb_issued_at h))])\<rparr>"

function show_py :: "pyval \<Rightarrow> string"
and show_pys :: "pyval list \<Rightarrow> string"
and show_items :: "(string \<times> pyval) list \<Rightarrow> string" where
  "show_py PNone = ''null''"
| "show_py (PBool b) = (if b then ''true'' else ''false'')"
| "show_py (PInt i) = show_int i"
| "show_py (PStr s) = CHR 0x22 # s @ [CHR 0x22]"
| "show_py (PList xs) = ''['' @ show_pys xs @ '']''"
| "show_py (PDict es) = ''{'' @ show_items es @ ''}''"
| "show_pys [] = []"
| "show_pys (x # xs) = show_py x @ '','' @ show_pys xs"
| "show_items [] = []"
| "show_items ((k, v) # es) = k @ '':'' @ show_py v @ '','' @ show_items es"
  by pat_completeness auto
termination
  by (relation "measure (\<lambda>x. case x of
           Inl t \<Rightarrow> size t
         | Inr (Inl xs) \<Rightarrow> size_list size xs
         | Inr (Inr es) \<Rightarrow> size_list (size_prod (\<lambda>_. 0) size) es)") auto

text \<open>
  Settings and a test case in the shape of the repository's \<open>settings.yml\<close> and
  \<open>specification.yml\<close> files: nested and array claims, a policy that covers both, one
  decoy at the top level, and an \<open>iss\<close> among the user claims that differs from the
  issuer of the settings.
\<close>

definition demo_settings :: pydict where
  "demo_settings =
     [(''random_seed'', PInt 0),
      (''key_settings'', PDict [(''key_size'', PInt 256)]),
      (''identifiers'', PDict [(''issuer'', PStr ''iss-a''), (''verifier'', PStr ''ver-a'')]),
      (''iat'', PInt 1000),
      (''exp'', PInt 2000),
      (''holder_binding_nonce'', PStr ''n-1'')]"

definition demo_user_claims :: pydict where
  "demo_user_claims =
     [(''iss'', PStr ''iss-b''),
      (''name'', PStr ''Al''),
      (''addr'', PDict [(''city'', PStr ''P''), (''land'', PStr ''F'')]),
      (''nat'', PList [PStr ''D'', PStr ''F''])]"

definition demo_testcase :: pydict where
  "demo_testcase =
     [(''user_claims'', PDict demo_user_claims),
      (''holder_disclosed_claims'',
         PList [PStr ''name'', PStr ''addr'', PList [PStr ''addr'', PStr ''city''],
                PList [PStr ''nat'', PInt 1]]),
      (''add_decoy_claims'', PBool True)]"

definition demo_claims :: pydict where
  "demo_claims =
     [(''iss'', PStr ''iss-b''),
      (''iat'', PInt 1000),
      (''exp'', PInt 2000),
      (''name'', PStr ''Al''),
      (''addr'', PDict [(''city'', PStr ''P''), (''land'', PStr ''F'')]),
      (''nat'', PList [PStr ''D'', PStr ''F''])]"

definition demo_config :: config where
  "demo_config =
     \<lparr>sd_alg_id = ''sha-256'', jws_header = ''ES256'',
      policy = [[Key ''name''], [Key ''addr''], [Key ''addr'', Key ''city''],
                [Key ''nat'', Index 1]],
      decoy_count = (\<lambda>p. if p = [] then 1 else 0),
      now = 1500, tolerance = 60\<rparr>"

definition demo_selection :: "path list" where
  "demo_selection =
     [[Key ''name''], [Key ''addr''], [Key ''addr'', Key ''city''], [Key ''nat'', Index 1]]"

text \<open>What the Verifier returns for the full selection: the claims, in the order of the walk.\<close>

definition demo_verified :: pyval where
  "demo_verified =
     PDict [(''iss'', PStr ''iss-b''), (''iat'', PInt 1000), (''exp'', PInt 2000),
            (''nat'', PList [PStr ''D'', PStr ''F'']),
            (''name'', PStr ''Al''),
            (''addr'', PDict [(''land'', PStr ''F''), (''city'', PStr ''P'')])]"

text \<open>
  The Disclosures this issuance makes, in generation order, the decoy digest, and the
  payload: what the stand-in decoders know.
\<close>

definition demo_digest :: "disclosure \<Rightarrow> string" where
  "demo_digest d = hash (demo_primitives [] [] []) (demo_encode_disclosure d)"

definition demo_name :: disclosure where
  "demo_name = (''s'', Some ''name'', CStr ''Al'')"

definition demo_city :: disclosure where
  "demo_city = (''sx'', Some ''city'', CStr ''P'')"

definition demo_addr :: disclosure where
  "demo_addr = (''sxx'', Some ''addr'', CObj [(''land'', CStr ''F'')] [demo_digest demo_city])"

definition demo_nat :: disclosure where
  "demo_nat = (''sxxx'', None, CStr ''F'')"

definition demo_disclosures :: "disclosure list" where
  "demo_disclosures = [demo_name, demo_city, demo_addr, demo_nat]"

definition demo_decoy :: string where
  "demo_decoy = demo_digest (''sxxxx'', None, CStr ''sxxxxx'')"

definition demo_payload :: "string sd_payload" where
  "demo_payload =
     \<lparr>claim_tree =
        CObj [(''iss'', CStr ''iss-b''),
              (''iat'', CInt 1000),
              (''exp'', CInt 2000),
              (''nat'', CArr [CStr ''D'', CHole (demo_digest demo_nat)])]
             [demo_digest demo_name, demo_digest demo_addr, demo_decoy],
      sd_alg = ''sha-256'',
      holder_key_ref = None\<rparr>"

definition demo_prim :: "string primitives" where
  "demo_prim =
     demo_primitives demo_disclosures [demo_payload]
       [\<lparr>hb_nonce = PNone, hb_audience = PNone, hb_issued_at = 1500\<rparr>]"

definition demo_art :: "string issuance" where
  "demo_art =
     (let body = demo_encode_payload demo_payload;
          sg = demo_signature ''issuer-key'' (''ES256'' @ CHR ''.'' # body);
          so = compact ''ES256'' body sg
      in \<lparr>iss_payload = demo_payload, iss_signature = sg, iss_signed_object = so,
           iss_disclosures = demo_disclosures, iss_decoys = [demo_decoy],
           iss_combined = combine so (map demo_encode_disclosure demo_disclosures) None\<rparr>)"

definition demo_pres :: presentation where
  "demo_pres =
     \<lparr>pres_combined = iss_combined demo_art,
      pres_selected = map demo_encode_disclosure demo_disclosures,
      pres_binding = None,
      pres_index = map (\<lambda>d. (demo_digest d, d)) demo_disclosures\<rparr>"

text \<open>The loaders and formatting functions of the run, its keys, path and file system.\<close>

definition demo_keys :: "string demo_keys" where
  "demo_keys =
     \<lparr>issuer_key = ''issuer-key'', holder_key = ''holder-key'',
      issuer_public_key = ''issuer-key''\<rparr>"

definition demo_path :: "string list" where
  "demo_path = [''examples'', ''demo'', ''specification.yml'']"

definition demo_tools :: "(string, string, pyval) engines" where
  "demo_tools =
     \<lparr>SDJWTIssuer = (\<lambda>flag claims key hkey use_decoys. Inl (OtherError ''not installed'')),
      SDJWTHolder = (\<lambda>combined. Inl (OtherError ''not installed'')),
      create_presentation = (\<lambda>h sel nonce aud hkey. Inl (OtherError ''not installed'')),
      SDJWTVerifier = (\<lambda>combined cb aud nonce. Inl (OtherError ''not installed'')),
      get_verified_payload = (\<lambda>v. Inl (OtherError ''not installed'')),
      get_jwk = (\<lambda>ks b seed. Inr demo_keys),
      load_yaml_example = (\<lambda>p.
         if p = demo_path then Inr demo_testcase else Inl (OtherError ''no such file'')),
      markdown_disclosures = (\<lambda>a b. Inr b),
      markdown_decoy_digests = (\<lambda>ds. Inr (PList (map PStr ds))),
      format_for_example = (\<lambda>v ftype. Inr (show_py v)),
      format_for_testcase = (\<lambda>v ftype. Inr (show_py v))\<rparr>"

definition demo_engines :: "(string, string, pyval) engines" where
  "demo_engines = spec_engines demo_prim demo_config demo_tools"

definition demo_world :: world where
  "demo_world = \<lparr>unsafe_randomness = False, dirs = [[''examples'', ''demo'']], files = []\<rparr>"

section \<open>Dictionaries and sequencing\<close>

lemma and_then_Inr_iff: "and_then m f = Inr y \<longleftrightarrow> (\<exists>x. m = Inr x \<and> f x = Inr y)"
  by (cases m) (auto simp: and_then_def)

lemma and_then_Inl_iff: "and_then m f = Inl e \<longleftrightarrow> (m = Inl e \<or> (\<exists>x. m = Inr x \<and> f x = Inl e))"
  by (cases m) (auto simp: and_then_def)

lemma and_then_simps [simp]: "and_then (Inl e) f = Inl e" "and_then (Inr x) f = f x"
  by (simp_all add: and_then_def)

lemma map_of_replace:
  "map_of (map (\<lambda>(k', v'). if k' = k then (k', v) else (k', v')) d) x =
     (if x = k \<and> k \<in> fst ` set d then Some v else map_of d x)"
proof (induction d arbitrary: x)
  case Nil
  show ?case by simp
next
  case (Cons a d)
  obtain k' v' where a: "a = (k', v')" by (cases a)
  show ?case
  proof (cases "k' = k")
    case True
    then show ?thesis by (simp add: a Cons.IH)
  next
    case False
    then show ?thesis by (simp add: a Cons.IH)
  qed
qed

lemma map_of_dict_set: "map_of (dict_set d k v) = (map_of d)(k \<mapsto> v)"
proof (cases "k \<in> fst ` set d")
  case True
  then show ?thesis by (auto simp: dict_set_def map_of_replace fun_eq_iff)
next
  case False
  then have "map_of d k = None" by (simp add: map_of_eq_None_iff)
  with False show ?thesis
    by (auto simp: dict_set_def fun_eq_iff map_add_def split: option.splits)
qed

lemma map_of_dict_update: "map_of (dict_update d e) = map_of d ++ map_of (rev e)"
  unfolding dict_update_def
proof (induction e arbitrary: d)
  case Nil
  then show ?case by simp
next
  case (Cons a e)
  obtain k v where a: "a = (k, v)" by (cases a)
  show ?case
    by (auto simp: a Cons map_of_dict_set fun_eq_iff map_add_def split: option.splits)
qed

lemma subscript_Inr_iff: "subscript d k = Inr v \<longleftrightarrow> map_of d k = Some v"
  by (auto simp: subscript_def split: option.splits)

lemma make_claims_lookup:
  assumes "make_claims settings testcase = Inr claims"
  shows "\<exists>ids iss iat ex u.
           subscript settings ''identifiers'' = Inr ids \<and> subscript_val ids ''issuer'' = Inr iss \<and>
           subscript settings ''iat'' = Inr iat \<and> subscript settings ''exp'' = Inr ex \<and>
           user_claims_of testcase = Inr u \<and>
           map_of claims = map_of [(''iss'', iss), (''iat'', iat), (''exp'', ex)] ++ map_of (rev u)"
  using assms
  by (auto simp: make_claims_def base_claims_def and_then_Inr_iff map_of_dict_update)

lemma make_claims_has_iss:
  assumes "make_claims settings testcase = Inr claims"
  shows "\<exists>v. subscript claims ''iss'' = Inr v"
proof -
  from make_claims_lookup[OF assms] obtain iss iat ex u where
    m: "map_of claims = map_of [(''iss'', iss), (''iat'', iat), (''exp'', ex)] ++ map_of (rev u)"
    by blast
  have "map_of claims ''iss'' \<noteq> None" unfolding m by (simp add: map_add_def split: option.splits)
  then show ?thesis by (auto simp: subscript_Inr_iff)
qed

lemma demo_make_claims: "make_claims demo_settings demo_testcase = Inr demo_claims"
  by (simp add: make_claims_def base_claims_def user_claims_of_def subscript_def
        subscript_val_def dict_update_def dict_set_def demo_settings_def demo_testcase_def
        demo_user_claims_def demo_claims_def)

section \<open>The walk inverts the traversal\<close>

lemma agrees_append:
  "agrees prim idx (a @ b) (c @ d) \<longleftrightarrow> agrees prim idx a c \<and> agrees prim idx b d"
  by (auto simp: agrees_def)

lemma make_decoys_state:
  "make_decoys prim k st = (ds, st') \<Longrightarrow> issued st' = issued st \<and> decoys st' = decoys st @ ds"
proof (induction k arbitrary: st ds st')
  case 0
  then show ?case by simp
next
  case (Suc k)
  then show ?case
    by (auto simp: Let_def split: prod.splits)
qed

lemma walk_digests_none:
  "\<forall>x\<in>set ds. idx x = None \<Longrightarrow> walk_digests idx n p ds = Inr ([], [])"
  by (induction ds) simp_all

lemma walk_digests_append_none:
  "\<forall>x\<in>set ds. idx x = None \<Longrightarrow> walk_digests idx n p (digs @ ds) = walk_digests idx n p digs"
  by (induction digs) (auto simp: walk_digests_none split: option.splits nat.splits)

lemma walk_list_holes_none:
  "\<forall>x\<in>set ds. idx x = None \<Longrightarrow> walk_list idx n p j (map CHole ds) = Inr ([], [])"
  by (induction ds arbitrary: j) simp_all

lemma walk_list_append_none:
  "\<forall>x\<in>set ds. idx x = None \<Longrightarrow>
     walk_list idx n p j (ys @ map CHole ds) = walk_list idx n p j ys"
  by (induction ys arbitrary: j)
     (auto simp: walk_list_holes_none split: option.splits nat.splits ctree.splits)

lemma map_of_insert_second:
  assumes "k \<notin> fst ` set xs"
  shows "map_of (xs @ (k, w) # ys) = (map_of (xs @ ys))(k \<mapsto> w)"
proof
  fix x
  from assms have "map_of xs k = None" by (simp add: map_of_eq_None_iff)
  then show "map_of (xs @ (k, w) # ys) x = ((map_of (xs @ ys))(k \<mapsto> w)) x"
    by (auto simp: map_add_def split: option.splits)
qed

lemma list_step_plain:
  assumes v: "val_ok prim x y st st1"
    and r: "list_ok prim xs ys st1 st2"
  shows "list_ok prim (x # xs) (y # ys) st st2"
proof -
  from v obtain new1 dec1 where nh: "\<And>d. y \<noteq> CHole d"
    and s1: "issued st1 = issued st @ new1" "decoys st1 = decoys st @ dec1"
    and w1: "\<And>idx n p. agrees prim idx new1 dec1 \<Longrightarrow> length new1 \<le> n \<Longrightarrow>
               \<exists>w loc. walk idx n p y = Inr (w, loc) \<and> denote w = denote x \<and>
                       snd ` set loc = digest_of prim ` set new1"
    unfolding val_ok_def by blast
  from r obtain new2 dec2 where
    s2: "issued st2 = issued st1 @ new2" "decoys st2 = decoys st1 @ dec2"
    and w2: "\<And>idx n p j. agrees prim idx new2 dec2 \<Longrightarrow> length new2 \<le> n \<Longrightarrow>
               \<exists>ws loc. walk_list idx n p j ys = Inr (ws, loc) \<and> map denote ws = map denote xs \<and>
                       snd ` set loc = digest_of prim ` set new2"
    unfolding list_ok_def by blast
  have "\<exists>ws loc. walk_list idx n p j (y # ys) = Inr (ws, loc) \<and>
          map denote ws = map denote (x # xs) \<and>
          snd ` set loc = digest_of prim ` set (new1 @ new2)"
    if a: "agrees prim idx (new1 @ new2) (dec1 @ dec2)" and n: "length (new1 @ new2) \<le> n"
    for idx n p j
  proof -
    from a have a1: "agrees prim idx new1 dec1" and a2: "agrees prim idx new2 dec2"
      by (simp_all add: agrees_append)
    from n have n1: "length new1 \<le> n" and n2: "length new2 \<le> n" by simp_all
    from w1[OF a1 n1, of "p @ [Index j]"] obtain w l1 where
      e1: "walk idx n (p @ [Index j]) y = Inr (w, l1)" "denote w = denote x"
          "snd ` set l1 = digest_of prim ` set new1" by blast
    from w2[OF a2 n2, of p "Suc j"] obtain ws l2 where
      e2: "walk_list idx n p (Suc j) ys = Inr (ws, l2)" "map denote ws = map denote xs"
          "snd ` set l2 = digest_of prim ` set new2" by blast
    have "walk_list idx n p j (y # ys) = Inr (w # ws, l1 @ l2)"
      using nh e1(1) e2(1) by (cases y) simp_all
    with e1 e2 show ?thesis by (simp add: image_Un)
  qed
  with s1 s2 show ?thesis unfolding list_ok_def
    by (intro exI[of _ "new1 @ new2"] exI[of _ "dec1 @ dec2"]) simp
qed

lemma disclose_state:
  assumes "disclose prim key y st = (dg, st')"
  shows "dg = digest_of prim (random_salt prim (next_salt st), key, y) \<and>
         issued st' = issued st @ [(random_salt prim (next_salt st), key, y)] \<and>
         decoys st' = decoys st"
  using assms by (auto simp: disclose_def Let_def)

lemma list_step_hole:
  assumes v: "val_ok prim x y st st1"
    and d: "disclose prim None y st1 = (dg, st2)"
    and r: "list_ok prim xs ys st2 st3"
  shows "list_ok prim (x # xs) (CHole dg # ys) st st3"
proof -
  define dis where "dis = (random_salt prim (next_salt st1), None :: string option, y)"
  from disclose_state[OF d] have dg: "dg = digest_of prim dis"
    and sd: "issued st2 = issued st1 @ [dis]" "decoys st2 = decoys st1"
    by (simp_all add: dis_def)
  from v obtain new1 dec1 where
    s1: "issued st1 = issued st @ new1" "decoys st1 = decoys st @ dec1"
    and w1: "\<And>idx n p. agrees prim idx new1 dec1 \<Longrightarrow> length new1 \<le> n \<Longrightarrow>
               \<exists>w loc. walk idx n p y = Inr (w, loc) \<and> denote w = denote x \<and>
                       snd ` set loc = digest_of prim ` set new1"
    unfolding val_ok_def by blast
  from r obtain new2 dec2 where
    s2: "issued st3 = issued st2 @ new2" "decoys st3 = decoys st2 @ dec2"
    and w2: "\<And>idx n p j. agrees prim idx new2 dec2 \<Longrightarrow> length new2 \<le> n \<Longrightarrow>
               \<exists>ws loc. walk_list idx n p j ys = Inr (ws, loc) \<and> map denote ws = map denote xs \<and>
                       snd ` set loc = digest_of prim ` set new2"
    unfolding list_ok_def by blast
  have "\<exists>ws loc. walk_list idx n p j (CHole dg # ys) = Inr (ws, loc) \<and>
          map denote ws = map denote (x # xs) \<and>
          snd ` set loc = digest_of prim ` set (new1 @ dis # new2)"
    if a: "agrees prim idx (new1 @ dis # new2) (dec1 @ dec2)"
      and n: "length (new1 @ dis # new2) \<le> n"
    for idx n p j
  proof -
    from a have a1: "agrees prim idx new1 dec1" and a2: "agrees prim idx new2 dec2"
      and ad: "idx dg = Some dis"
      by (auto simp: agrees_def dg)
    from n obtain m where m: "n = Suc m" "length new1 \<le> m" and n2: "length new2 \<le> n"
      by (cases n) auto
    from w1[OF a1 m(2), of "p @ [Index j]"] obtain w l1 where
      e1: "walk idx m (p @ [Index j]) y = Inr (w, l1)" "denote w = denote x"
          "snd ` set l1 = digest_of prim ` set new1" by blast
    from w2[OF a2 n2, of p "Suc j"] obtain ws l2 where
      e2: "walk_list idx n p (Suc j) ys = Inr (ws, l2)" "map denote ws = map denote xs"
          "snd ` set l2 = digest_of prim ` set new2" by blast
    have "walk_list idx n p j (CHole dg # ys) = Inr (w # ws, (p @ [Index j], dg) # l1 @ l2)"
      using e1(1) e2(1) ad by (simp add: m(1) dis_def)
    with e1 e2 show ?thesis by (auto simp: image_Un dg)
  qed
  with s1 s2 sd show ?thesis unfolding list_ok_def
    by (intro exI[of _ "new1 @ dis # new2"] exI[of _ "dec1 @ dec2"]) simp
qed

lemma issue_list_ok:
  assumes "\<And>x pth st t st'. x \<in> set xs \<Longrightarrow> issue_val prim cfg pth x st = (t, st')
             \<Longrightarrow> val_ok prim x t st st'"
    and "issue_list prim cfg pth i xs st = (ys, st')"
  shows "list_ok prim xs ys st st'"
  using assms
proof (induction xs arbitrary: i st ys st')
  case Nil
  then show ?case by (auto simp: list_ok_def agrees_def)
next
  case (Cons x xs)
  obtain y st1 where y: "issue_val prim cfg (pth @ [Index i]) x st = (y, st1)"
    by (cases "issue_val prim cfg (pth @ [Index i]) x st")
  have v: "val_ok prim x y st st1" using Cons.prems(1)[OF _ y] by simp
  have ih: "\<And>i st ys st'. issue_list prim cfg pth i xs st = (ys, st') \<Longrightarrow> list_ok prim xs ys st st'"
    using Cons.IH Cons.prems(1) by simp
  show ?case
  proof (cases "selected cfg (pth @ [Index i])")
    case True
    obtain dg st2 where d: "disclose prim None y st1 = (dg, st2)"
      by (cases "disclose prim None y st1")
    obtain zs st3 where z: "issue_list prim cfg pth (Suc i) xs st2 = (zs, st3)"
      by (cases "issue_list prim cfg pth (Suc i) xs st2")
    from Cons.prems(2) y True d z have "ys = CHole dg # zs" "st' = st3" by simp_all
    with list_step_hole[OF v d ih[OF z]] show ?thesis by simp
  next
    case False
    obtain zs st3 where z: "issue_list prim cfg pth (Suc i) xs st1 = (zs, st3)"
      by (cases "issue_list prim cfg pth (Suc i) xs st1")
    from Cons.prems(2) y False z have "ys = y # zs" "st' = st3" by simp_all
    with list_step_plain[OF v ih[OF z]] show ?thesis by simp
  qed
qed

lemma entries_step_plain:
  assumes v: "val_ok prim x y st st1"
    and np: "\<not> selected cfg (pth @ [Key k])"
    and r: "entries_ok prim cfg pth es plain digs st1 st2"
  shows "entries_ok prim cfg pth ((k, x) # es) ((k, y) # plain) digs st st2"
proof -
  from v obtain new1 dec1 where
    s1: "issued st1 = issued st @ new1" "decoys st1 = decoys st @ dec1"
    and w1: "\<And>idx n p. agrees prim idx new1 dec1 \<Longrightarrow> length new1 \<le> n \<Longrightarrow>
               \<exists>w loc. walk idx n p y = Inr (w, loc) \<and> denote w = denote x \<and>
                       snd ` set loc = digest_of prim ` set new1"
    unfolding val_ok_def by blast
  from r obtain new2 dec2 where
    pl: "\<forall>k\<in>fst ` set plain. \<not> selected cfg (pth @ [Key k])"
    and s2: "issued st2 = issued st1 @ new2" "decoys st2 = decoys st1 @ dec2"
    and w2: "\<And>idx n p. agrees prim idx new2 dec2 \<Longrightarrow> length new2 \<le> n \<Longrightarrow>
               \<exists>ws1 l1 ws2 l2.
                 walk_entries idx n p plain = Inr (ws1, l1) \<and>
                 walk_digests idx n p digs = Inr (ws2, l2) \<and>
                 map fst ws1 = map fst plain \<and>
                 map_of (map (map_prod id denote) (ws1 @ ws2)) = map_of (map (map_prod id denote) es) \<and>
                 snd ` set (l1 @ l2) = digest_of prim ` set new2"
    unfolding entries_ok_def by blast
  have "\<exists>ws1 l1 ws2 l2.
          walk_entries idx n p ((k, y) # plain) = Inr (ws1, l1) \<and>
          walk_digests idx n p digs = Inr (ws2, l2) \<and>
          map fst ws1 = map fst ((k, y) # plain) \<and>
          map_of (map (map_prod id denote) (ws1 @ ws2))
            = map_of (map (map_prod id denote) ((k, x) # es)) \<and>
          snd ` set (l1 @ l2) = digest_of prim ` set (new1 @ new2)"
    if a: "agrees prim idx (new1 @ new2) (dec1 @ dec2)" and n: "length (new1 @ new2) \<le> n"
    for idx n p
  proof -
    from a have a1: "agrees prim idx new1 dec1" and a2: "agrees prim idx new2 dec2"
      by (simp_all add: agrees_append)
    from n have n1: "length new1 \<le> n" and n2: "length new2 \<le> n" by simp_all
    from w1[OF a1 n1, of "p @ [Key k]"] obtain w l0 where
      e1: "walk idx n (p @ [Key k]) y = Inr (w, l0)" "denote w = denote x"
          "snd ` set l0 = digest_of prim ` set new1" by blast
    from w2[OF a2 n2, of p] obtain ws1 l1 ws2 l2 where
      e2: "walk_entries idx n p plain = Inr (ws1, l1)"
          "walk_digests idx n p digs = Inr (ws2, l2)"
          "map fst ws1 = map fst plain"
          "map_of (map (map_prod id denote) (ws1 @ ws2)) = map_of (map (map_prod id denote) es)"
          "snd ` set (l1 @ l2) = digest_of prim ` set new2" by blast
    have "walk_entries idx n p ((k, y) # plain) = Inr ((k, w) # ws1, l0 @ l1)"
      using e1(1) e2(1) by simp
    moreover have "map_of (map (map_prod id denote) (((k, w) # ws1) @ ws2))
            = map_of (map (map_prod id denote) ((k, x) # es))"
      using e2(4) e1(2) by simp
    moreover have "snd ` set ((l0 @ l1) @ l2) = digest_of prim ` set (new1 @ new2)"
      using e1(3) e2(5) by (simp add: image_Un Un_assoc)
    moreover have "map fst ((k, w) # ws1) = map fst ((k, y) # plain)"
      using e2(3) by simp
    moreover note e2(2)
    ultimately show ?thesis by blast
  qed
  moreover have "\<forall>k'\<in>fst ` set ((k, y) # plain). \<not> selected cfg (pth @ [Key k'])"
    using np pl by auto
  ultimately show ?thesis using s1 s2 unfolding entries_ok_def
    by (intro conjI exI[of _ "new1 @ new2"] exI[of _ "dec1 @ dec2"]) simp_all
qed

lemma entries_step_disclosed:
  assumes v: "val_ok prim x y st st1"
    and inp: "selected cfg (pth @ [Key k])"
    and d: "disclose prim (Some k) y st1 = (dg, st2)"
    and r: "entries_ok prim cfg pth es plain digs st2 st3"
  shows "entries_ok prim cfg pth ((k, x) # es) plain (dg # digs) st st3"
proof -
  define dis where "dis = (random_salt prim (next_salt st1), Some k, y)"
  from disclose_state[OF d] have dg: "dg = digest_of prim dis"
    and sd: "issued st2 = issued st1 @ [dis]" "decoys st2 = decoys st1"
    by (simp_all add: dis_def)
  from v obtain new1 dec1 where
    s1: "issued st1 = issued st @ new1" "decoys st1 = decoys st @ dec1"
    and w1: "\<And>idx n p. agrees prim idx new1 dec1 \<Longrightarrow> length new1 \<le> n \<Longrightarrow>
               \<exists>w loc. walk idx n p y = Inr (w, loc) \<and> denote w = denote x \<and>
                       snd ` set loc = digest_of prim ` set new1"
    unfolding val_ok_def by blast
  from r obtain new2 dec2 where
    pl: "\<forall>k\<in>fst ` set plain. \<not> selected cfg (pth @ [Key k])"
    and s2: "issued st3 = issued st2 @ new2" "decoys st3 = decoys st2 @ dec2"
    and w2: "\<And>idx n p. agrees prim idx new2 dec2 \<Longrightarrow> length new2 \<le> n \<Longrightarrow>
               \<exists>ws1 l1 ws2 l2.
                 walk_entries idx n p plain = Inr (ws1, l1) \<and>
                 walk_digests idx n p digs = Inr (ws2, l2) \<and>
                 map fst ws1 = map fst plain \<and>
                 map_of (map (map_prod id denote) (ws1 @ ws2)) = map_of (map (map_prod id denote) es) \<and>
                 snd ` set (l1 @ l2) = digest_of prim ` set new2"
    unfolding entries_ok_def by blast
  have "\<exists>ws1 l1 ws2 l2.
          walk_entries idx n p plain = Inr (ws1, l1) \<and>
          walk_digests idx n p (dg # digs) = Inr (ws2, l2) \<and>
          map fst ws1 = map fst plain \<and>
          map_of (map (map_prod id denote) (ws1 @ ws2))
            = map_of (map (map_prod id denote) ((k, x) # es)) \<and>
          snd ` set (l1 @ l2) = digest_of prim ` set (new1 @ dis # new2)"
    if a: "agrees prim idx (new1 @ dis # new2) (dec1 @ dec2)"
      and n: "length (new1 @ dis # new2) \<le> n"
    for idx n p
  proof -
    from a have a1: "agrees prim idx new1 dec1" and a2: "agrees prim idx new2 dec2"
      and ad: "idx dg = Some dis"
      by (auto simp: agrees_def dg)
    from n obtain m where m: "n = Suc m" "length new1 \<le> m" and n2: "length new2 \<le> n"
      by (cases n) auto
    from w1[OF a1 m(2), of "p @ [Key k]"] obtain w l0 where
      e1: "walk idx m (p @ [Key k]) y = Inr (w, l0)" "denote w = denote x"
          "snd ` set l0 = digest_of prim ` set new1" by blast
    from w2[OF a2 n2, of p] obtain ws1 l1 ws2 l2 where
      e2: "walk_entries idx n p plain = Inr (ws1, l1)"
          "walk_digests idx n p digs = Inr (ws2, l2)"
          "map fst ws1 = map fst plain"
          "map_of (map (map_prod id denote) (ws1 @ ws2)) = map_of (map (map_prod id denote) es)"
          "snd ` set (l1 @ l2) = digest_of prim ` set new2" by blast
    have wd: "walk_digests idx n p (dg # digs) = Inr ((k, w) # ws2, (p @ [Key k], dg) # l0 @ l2)"
      using e1(1) e2(2) ad by (simp add: m(1) dis_def)
    have "fst ` set ws1 = fst ` set plain"
      using e2(3) by (metis list.set_map)
    moreover have "k \<notin> fst ` set plain" using pl inp by blast
    moreover have "fst ` set (map (map_prod id denote) ws1) = fst ` set ws1"
      by force
    ultimately have "k \<notin> fst ` set (map (map_prod id denote) ws1)"
      by simp
    then have "map_of (map (map_prod id denote) ws1 @ (k, denote w) # map (map_prod id denote) ws2)
          = (map_of (map (map_prod id denote) ws1 @ map (map_prod id denote) ws2))(k \<mapsto> denote w)"
      by (rule map_of_insert_second)
    then have mo: "map_of (map (map_prod id denote) (ws1 @ (k, w) # ws2))
            = map_of (map (map_prod id denote) ((k, x) # es))"
      using e2(4) e1(2) by simp
    have "snd ` set (l1 @ (p @ [Key k], dg) # l0 @ l2) = digest_of prim ` set (new1 @ dis # new2)"
      using e1(3) e2(5) by (auto simp: image_Un dg)
    with wd mo e2(1,3) show ?thesis by blast
  qed
  with pl s1 s2 sd show ?thesis unfolding entries_ok_def
    by (intro conjI exI[of _ "new1 @ dis # new2"] exI[of _ "dec1 @ dec2"]) simp_all
qed

lemma issue_entries_ok:
  assumes "\<And>k x pth st t st'. (k, x) \<in> set es \<Longrightarrow> issue_val prim cfg pth x st = (t, st')
             \<Longrightarrow> val_ok prim x t st st'"
    and "issue_entries prim cfg pth es st = ((plain, digs), st')"
  shows "entries_ok prim cfg pth es plain digs st st'"
  using assms
proof (induction es arbitrary: st plain digs st')
  case Nil
  then show ?case by (auto simp: entries_ok_def agrees_def)
next
  case (Cons e es)
  obtain k x where e: "e = (k, x)" by (cases e)
  obtain y st1 where y: "issue_val prim cfg (pth @ [Key k]) x st = (y, st1)"
    by (cases "issue_val prim cfg (pth @ [Key k]) x st")
  have v: "val_ok prim x y st st1" using Cons.prems(1)[of k x, OF _ y] by (simp add: e)
  have ih: "entries_ok prim cfg pth es plain digs st st'"
    if "issue_entries prim cfg pth es st = ((plain, digs), st')" for st plain digs st'
    by (rule Cons.IH[OF _ that]) (rule Cons.prems(1)[OF list.set_intros(2)]; assumption)
  show ?case
  proof (cases "selected cfg (pth @ [Key k])")
    case True
    obtain dg st2 where d: "disclose prim (Some k) y st1 = (dg, st2)"
      by (cases "disclose prim (Some k) y st1")
    obtain pl dgs st3 where z: "issue_entries prim cfg pth es st2 = ((pl, dgs), st3)"
      by (cases "issue_entries prim cfg pth es st2") auto
    from Cons.prems(2) y True d z have "plain = pl" "digs = dg # dgs" "st' = st3"
      by (simp_all add: e)
    with entries_step_disclosed[OF v True d ih[OF z]] show ?thesis by (simp add: e)
  next
    case False
    obtain pl dgs st3 where z: "issue_entries prim cfg pth es st1 = ((pl, dgs), st3)"
      by (cases "issue_entries prim cfg pth es st1") auto
    from Cons.prems(2) y False z have "plain = (k, y) # pl" "digs = dgs" "st' = st3"
      by (simp_all add: e)
    with entries_step_plain[OF v False ih[OF z]] show ?thesis by (simp add: e)
  qed
qed

lemma val_ok_scalar:
  assumes "\<And>idx n p. walk idx n p t = Inr (w, [])" and "denote w = denote v"
    and "\<And>d. t \<noteq> CHole d"
  shows "val_ok prim v t st st"
  unfolding val_ok_def using assms
  by (intro conjI allI exI[of _ "[]"]) auto

lemma issue_val_ok:
  "issue_val prim cfg pth v st = (t, st') \<Longrightarrow> val_ok prim v t st st'"
proof (induction v arbitrary: pth st t st')
  case PNone
  then show ?case by (auto intro!: val_ok_scalar[where w = PNone])
next
  case (PBool b)
  then show ?case by (auto intro!: val_ok_scalar[where w = "PBool b"])
next
  case (PInt i)
  then show ?case by (auto intro!: val_ok_scalar[where w = "PInt i"])
next
  case (PStr s)
  then show ?case by (auto intro!: val_ok_scalar[where w = "PStr s"])
next
  case (PList xs)
  obtain ys st1 where y: "issue_list prim cfg pth 0 xs st = (ys, st1)"
    by (cases "issue_list prim cfg pth 0 xs st")
  obtain ds st2 where d: "make_decoys prim (decoy_count cfg pth) st1 = (ds, st2)"
    by (cases "make_decoys prim (decoy_count cfg pth) st1")
  from PList.prems y d have t: "t = CArr (ys @ map CHole ds)" and st': "st' = st2" by simp_all
  have "list_ok prim xs ys st st1"
    by (rule issue_list_ok[OF _ y]) (rule PList.IH)
  then obtain new dec where
    s1: "issued st1 = issued st @ new" "decoys st1 = decoys st @ dec"
    and w1: "\<And>idx n p j. agrees prim idx new dec \<Longrightarrow> length new \<le> n \<Longrightarrow>
               \<exists>ws loc. walk_list idx n p j ys = Inr (ws, loc) \<and> map denote ws = map denote xs \<and>
                       snd ` set loc = digest_of prim ` set new"
    unfolding list_ok_def by blast
  from make_decoys_state[OF d] have s2: "issued st2 = issued st1" "decoys st2 = decoys st1 @ ds"
    by simp_all
  have "\<exists>w loc. walk idx n p t = Inr (w, loc) \<and> denote w = denote (PList xs) \<and>
          snd ` set loc = digest_of prim ` set new"
    if a: "agrees prim idx new (dec @ ds)" and n: "length new \<le> n" for idx n p
  proof -
    from a have a1: "agrees prim idx new dec" and nn: "\<forall>x\<in>set ds. idx x = None"
      by (auto simp: agrees_def)
    from w1[OF a1 n, of p 0] obtain ws loc where
      e: "walk_list idx n p 0 ys = Inr (ws, loc)" "map denote ws = map denote xs"
         "snd ` set loc = digest_of prim ` set new" by blast
    have "walk idx n p t = Inr (PList ws, loc)"
      using e(1) by (simp add: t walk_list_append_none[OF nn])
    with e show ?thesis by simp
  qed
  with s1 s2 show ?case unfolding val_ok_def st'
    by (intro conjI allI exI[of _ new] exI[of _ "dec @ ds"]) (simp_all add: t)
next
  case (PDict es)
  obtain plain digs st1 where y: "issue_entries prim cfg pth es st = ((plain, digs), st1)"
    by (cases "issue_entries prim cfg pth es st") auto
  obtain ds st2 where d: "make_decoys prim (decoy_count cfg pth) st1 = (ds, st2)"
    by (cases "make_decoys prim (decoy_count cfg pth) st1")
  from PDict.prems y d have t: "t = CObj plain (digs @ ds)" and st': "st' = st2" by simp_all
  have "entries_ok prim cfg pth es plain digs st st1"
  proof (rule issue_entries_ok[OF _ y])
    fix k x pth st t st'
    assume "(k, x) \<in> set es" "issue_val prim cfg pth x st = (t, st')"
    then show "val_ok prim x t st st'"
      using PDict.IH[of "(k, x)" x] by simp
  qed
  then obtain new dec where
    s1: "issued st1 = issued st @ new" "decoys st1 = decoys st @ dec"
    and w1: "\<And>idx n p. agrees prim idx new dec \<Longrightarrow> length new \<le> n \<Longrightarrow>
               \<exists>ws1 l1 ws2 l2.
                 walk_entries idx n p plain = Inr (ws1, l1) \<and>
                 walk_digests idx n p digs = Inr (ws2, l2) \<and>
                 map fst ws1 = map fst plain \<and>
                 map_of (map (map_prod id denote) (ws1 @ ws2)) = map_of (map (map_prod id denote) es) \<and>
                 snd ` set (l1 @ l2) = digest_of prim ` set new"
    unfolding entries_ok_def by blast
  from make_decoys_state[OF d] have s2: "issued st2 = issued st1" "decoys st2 = decoys st1 @ ds"
    by simp_all
  have "\<exists>w loc. walk idx n p t = Inr (w, loc) \<and> denote w = denote (PDict es) \<and>
          snd ` set loc = digest_of prim ` set new"
    if a: "agrees prim idx new (dec @ ds)" and n: "length new \<le> n" for idx n p
  proof -
    from a have a1: "agrees prim idx new dec" and nn: "\<forall>x\<in>set ds. idx x = None"
      by (auto simp: agrees_def)
    from w1[OF a1 n, of p] obtain ws1 l1 ws2 l2 where
      e: "walk_entries idx n p plain = Inr (ws1, l1)"
         "walk_digests idx n p digs = Inr (ws2, l2)"
         "map_of (map (map_prod id denote) (ws1 @ ws2)) = map_of (map (map_prod id denote) es)"
         "snd ` set (l1 @ l2) = digest_of prim ` set new" by blast
    have "walk idx n p t = Inr (PDict (ws1 @ ws2), l1 @ l2)"
      using e(1,2) by (simp add: t walk_digests_append_none[OF nn])
    with e show ?thesis by simp
  qed
  with s1 s2 show ?case unfolding val_ok_def st'
    by (intro conjI allI exI[of _ new] exI[of _ "dec @ ds"]) (simp_all add: t)
qed

section \<open>Parsing what was serialised\<close>

lemma split_on_nonempty: "split_on c s \<noteq> []"
  by (induction s) (auto split: list.splits)

lemma split_on_clean: "c \<notin> set w \<Longrightarrow> split_on c w = [w]"
  by (induction w) (auto split: list.splits)

lemma split_on_append:
  "c \<notin> set w \<Longrightarrow> split_on c (w @ c # rest) = w # split_on c rest"
  by (induction w) (auto split: list.splits)

lemma split_join:
  assumes "\<forall>w\<in>set ws. c \<notin> set w" and "ws \<noteq> []"
  shows "split_on c (join_with c ws) = ws"
  using assms
proof (induction c ws rule: join_with.induct)
  case (1 c)
  then show ?case by simp
next
  case (2 c w)
  then show ?case by (simp add: split_on_clean)
next
  case (3 c w v ws)
  then show ?case by (simp add: split_on_append)
qed

lemma parse_compact_compact:
  assumes "clean h" "clean b" "clean g"
  shows "parse_compact (compact h b g) = Inr (h, b, g)"
proof -
  have "split_on (CHR ''.'') (join_with (CHR ''.'') [h, b, g]) = [h, b, g]"
    using assms by (intro split_join) (auto simp: clean_def)
  then show ?thesis by (simp add: parse_compact_def compact_def)
qed

lemma clean_compact:
  assumes "clean h" "clean b" "clean g"
  shows "CHR ''~'' \<notin> set (compact h b g)"
  using assms by (auto simp: clean_def compact_def)

lemma parse_combined_split:
  assumes "split_on (CHR ''~'') s = so # rest" and "rest \<noteq> []"
  shows "parse_combined s = Inr (so, butlast rest, if last rest = [] then None else Some (last rest))"
  using assms by (cases rest) (simp_all add: parse_combined_def)

lemma parse_combined_combine:
  assumes "CHR ''~'' \<notin> set so" and "\<forall>d\<in>set ds. CHR ''~'' \<notin> set d"
    and "\<forall>b. hb = Some b \<longrightarrow> b \<noteq> [] \<and> CHR ''~'' \<notin> set b"
  shows "parse_combined (combine so ds hb) = Inr (so, ds, hb)"
proof -
  define l where "l = (case hb of None \<Rightarrow> [] | Some b \<Rightarrow> b)"
  have "\<forall>w\<in>set (so # ds @ [l]). CHR ''~'' \<notin> set w"
    using assms by (auto simp: l_def split: option.splits)
  then have "split_on (CHR ''~'') (join_with (CHR ''~'') (so # ds @ [l])) = so # (ds @ [l])"
    by (intro split_join) auto
  then have "parse_combined (combine so ds hb)
      = Inr (so, butlast (ds @ [l]), if last (ds @ [l]) = [] then None else Some (last (ds @ [l])))"
    unfolding combine_def l_def[symmetric] by (rule parse_combined_split) simp
  moreover have "(if l = [] then None else Some l) = hb"
    using assms(3) by (auto simp: l_def split: option.splits)
  ultimately show ?thesis by (auto split: if_splits)
qed

lemma build_index_issued:
  assumes "\<forall>d\<in>set ds. decode_disclosure prim (encode_disclosure prim d) = Some d"
    and "distinct (map (digest_of prim) ds)"
  shows "build_index prim (map (encode_disclosure prim) ds)
           = Inr (map (\<lambda>d. (digest_of prim d, d)) ds)"
  using assms
proof (induction ds)
  case Nil
  then show ?case by simp
next
  case (Cons d ds)
  have "fst ` set (map (\<lambda>d. (digest_of prim d, d)) ds) = digest_of prim ` set ds"
    by force
  with Cons show ?case by (simp add: digest_of_def[symmetric])
qed

lemma index_agrees:
  assumes "distinct (map (digest_of prim) ds)"
    and "set decs \<inter> digest_of prim ` set ds = {}"
  shows "agrees prim (map_of (map (\<lambda>d. (digest_of prim d, d)) ds)) ds decs"
proof -
  have m: "map fst (map (\<lambda>d. (digest_of prim d, d)) ds) = map (digest_of prim) ds"
    by simp
  have "map_of (map (\<lambda>d. (digest_of prim d, d)) ds) (digest_of prim d) = Some d"
    if "d \<in> set ds" for d
    using that assms(1) by (intro map_of_is_SomeI) (auto simp: comp_def)
  moreover have "map_of (map (\<lambda>d. (digest_of prim d, d)) ds) x = None" if "x \<in> set decs" for x
  proof -
    from that assms(2) have "x \<notin> digest_of prim ` set ds" by blast
    then show ?thesis by (simp add: map_of_eq_None_iff image_image)
  qed
  ultimately show ?thesis by (simp add: agrees_def)
qed

lemma issue_entries_plain_lookup:
  assumes "issue_entries prim cfg pth es st = ((plain, digs), st')"
    and "\<not> selected cfg (pth @ [Key k])"
    and "map_of es k = Some v"
    and "\<And>st. issue_val prim cfg (pth @ [Key k]) v st = (t, st)"
  shows "map_of plain k = Some t"
  using assms(1,3)
proof (induction es arbitrary: st plain digs st')
  case Nil
  then show ?case by simp
next
  case (Cons e es)
  obtain k' x where e: "e = (k', x)" by (cases e)
  obtain y st1 where y: "issue_val prim cfg (pth @ [Key k']) x st = (y, st1)"
    by (cases "issue_val prim cfg (pth @ [Key k']) x st")
  show ?case
  proof (cases "k' = k")
    case True
    with Cons.prems(2) have x: "x = v" by (simp add: e)
    from y have yt: "y = t" "st1 = st" using assms(4)[of st] by (simp_all add: True x)
    obtain pl dgs st3 where z: "issue_entries prim cfg pth es st = ((pl, dgs), st3)"
      by (cases "issue_entries prim cfg pth es st") auto
    from Cons.prems(1) assms(2) assms(4)[of st] z have "plain = (k, t) # pl"
      by (simp add: e True x)
    then show ?thesis by simp
  next
    case False
    with Cons.prems(2) have l: "map_of es k = Some v" by (simp add: e)
    show ?thesis
    proof (cases "selected cfg (pth @ [Key k'])")
      case True
      obtain dg st2 where d: "disclose prim (Some k') y st1 = (dg, st2)"
        by (cases "disclose prim (Some k') y st1")
      obtain pl dgs st3 where z: "issue_entries prim cfg pth es st2 = ((pl, dgs), st3)"
        by (cases "issue_entries prim cfg pth es st2") auto
      from Cons.prems(1) y True d z have "plain = pl" by (simp add: e)
      with Cons.IH[OF z l] show ?thesis by simp
    next
      case sel: False
      obtain pl dgs st3 where z: "issue_entries prim cfg pth es st1 = ((pl, dgs), st3)"
        by (cases "issue_entries prim cfg pth es st1") auto
      from Cons.prems(1) y sel z have "plain = (k', y) # pl" by (simp add: e)
      with Cons.IH[OF z l] False show ?thesis by simp
    qed
  qed
qed

lemma registered_not_selected:
  "\<not> selected cfg [Key ''iss'']" "\<not> selected cfg [Key ''iat'']" "\<not> selected cfg [Key ''exp'']"
  by (simp_all add: selected_def registered_def)

lemma issue_top_lookup:
  assumes "issue_val prim cfg [] (PDict claims) st = (tree, st')"
  shows "\<exists>plain digs.
           tree = CObj plain digs \<and>
           (\<forall>i. map_of claims ''iss'' = Some (PStr i) \<longrightarrow> map_of plain ''iss'' = Some (CStr i)) \<and>
           (\<forall>e. map_of claims ''exp'' = Some (PInt e) \<longrightarrow> map_of plain ''exp'' = Some (CInt e)) \<and>
           (\<forall>t. map_of claims ''iat'' = Some (PInt t) \<longrightarrow> map_of plain ''iat'' = Some (CInt t))"
proof -
  obtain plain digs st1 where y: "issue_entries prim cfg [] claims st = ((plain, digs), st1)"
    by (cases "issue_entries prim cfg [] claims st") auto
  obtain ds st2 where d: "make_decoys prim (decoy_count cfg []) st1 = (ds, st2)"
    by (cases "make_decoys prim (decoy_count cfg []) st1")
  from assms y d have t: "tree = CObj plain (digs @ ds)" by simp
  have "map_of plain ''iss'' = Some (CStr i)" if "map_of claims ''iss'' = Some (PStr i)" for i
    using issue_entries_plain_lookup[OF y _ that, of "CStr i"] registered_not_selected by simp
  moreover have "map_of plain ''exp'' = Some (CInt e)" if "map_of claims ''exp'' = Some (PInt e)" for e
    using issue_entries_plain_lookup[OF y _ that, of "CInt e"] registered_not_selected by simp
  moreover have "map_of plain ''iat'' = Some (CInt e)" if "map_of claims ''iat'' = Some (PInt e)" for e
    using issue_entries_plain_lookup[OF y _ that, of "CInt e"] registered_not_selected by simp
  ultimately show ?thesis using t by blast
qed

lemma issuer_engine_unpack:
  assumes "issuer_engine prim cfg claims key hkey = Inr art"
  obtains tree st sg where
    "issue_val prim cfg [] claims \<lparr>next_salt = 0, issued = [], decoys = []\<rparr> = (tree, st)"
    "iss_payload art = \<lparr>claim_tree = tree, sd_alg = sd_alg_id cfg,
                        holder_key_ref = map_option (public_of prim) hkey\<rparr>"
    "sign prim key (jws_header cfg @ CHR ''.'' # encode_payload prim (iss_payload art)) = Inr sg"
    "iss_signature art = sg"
    "iss_signed_object art = compact (jws_header cfg) (encode_payload prim (iss_payload art)) sg"
    "iss_disclosures art = issued st"
    "iss_decoys art = decoys st"
    "iss_combined art
       = combine (iss_signed_object art) (map (encode_disclosure prim) (issued st)) None"
    "policy_ok cfg claims"
proof -
  obtain tree st where
    iv: "issue_val prim cfg [] claims \<lparr>next_salt = 0, issued = [], decoys = []\<rparr> = (tree, st)"
    by (cases "issue_val prim cfg [] claims \<lparr>next_salt = 0, issued = [], decoys = []\<rparr>")
  from assms have pk: "policy_ok cfg claims"
    by (auto simp: issuer_engine_def split: if_splits)
  define payload where "payload = \<lparr>claim_tree = tree, sd_alg = sd_alg_id cfg,
                        holder_key_ref = map_option (public_of prim) hkey\<rparr>"
  from assms pk iv obtain sg where
    sg: "sign prim key (jws_header cfg @ CHR ''.'' # encode_payload prim payload) = Inr sg"
    and art: "art = \<lparr>iss_payload = payload, iss_signature = sg,
                  iss_signed_object = compact (jws_header cfg) (encode_payload prim payload) sg,
                  iss_disclosures = issued st, iss_decoys = decoys st,
                  iss_combined = combine (compact (jws_header cfg) (encode_payload prim payload) sg)
                                   (map (encode_disclosure prim) (issued st)) None\<rparr>"
    by (auto simp: issuer_engine_def Let_def and_then_Inr_iff payload_def)
  show ?thesis
    by (rule that[OF iv _ _ _ _ _ _ _ pk, of sg]) (simp_all add: art payload_def sg[unfolded payload_def])
qed

lemma read_issued_object:
  assumes iss: "issuer_engine prim cfg claims key hkey = Inr art"
    and cl: "encodings_clean prim cfg"
    and dc: "decode_payload prim (encode_payload prim (iss_payload art)) = Some (iss_payload art)"
  shows "read_signed_object prim (iss_signed_object art)
           = Inr (jws_header cfg, encode_payload prim (iss_payload art), iss_signature art,
                  iss_payload art)"
    and "CHR ''~'' \<notin> set (iss_signed_object art)"
    and "verify_sig prim (public_of prim key)
           (jws_header cfg @ CHR ''.'' # encode_payload prim (iss_payload art)) (iss_signature art)
         \<or> \<not> signatures_verify prim"
proof -
  from iss obtain sg where
    sg: "sign prim key (jws_header cfg @ CHR ''.'' # encode_payload prim (iss_payload art)) = Inr sg"
    and s: "iss_signature art = sg"
    and so: "iss_signed_object art = compact (jws_header cfg) (encode_payload prim (iss_payload art)) sg"
    by (rule issuer_engine_unpack)
  from cl sg have c: "clean (jws_header cfg)" "clean (encode_payload prim (iss_payload art))" "clean sg"
    unfolding encodings_clean_def by blast+
  show "read_signed_object prim (iss_signed_object art)
           = Inr (jws_header cfg, encode_payload prim (iss_payload art), iss_signature art,
                  iss_payload art)"
    by (simp add: read_signed_object_def so s parse_compact_compact[OF c] dc)
  show "CHR ''~'' \<notin> set (iss_signed_object art)"
    unfolding so by (rule clean_compact[OF c])
  show "verify_sig prim (public_of prim key)
           (jws_header cfg @ CHR ''.'' # encode_payload prim (iss_payload art)) (iss_signature art)
         \<or> \<not> signatures_verify prim"
    using sg s unfolding signatures_verify_def by blast
qed

lemma walk_issued:
  assumes iss: "issuer_engine prim cfg claims key hkey = Inr art"
    and dc: "\<forall>d\<in>set (iss_disclosures art).
               decode_disclosure prim (encode_disclosure prim d) = Some d"
    and cf: "collision_free prim art"
  shows "\<exists>index v0 located.
           build_index prim (map (encode_disclosure prim) (iss_disclosures art)) = Inr index \<and>
           walk (map_of index) (length (iss_disclosures art)) [] (claim_tree (iss_payload art))
             = Inr (v0, located) \<and>
           denote v0 = denote claims \<and>
           snd ` set located = digest_of prim ` set (iss_disclosures art)"
proof -
  from iss obtain tree st where
    iv: "issue_val prim cfg [] claims \<lparr>next_salt = 0, issued = [], decoys = []\<rparr> = (tree, st)"
    and pl: "iss_payload art = \<lparr>claim_tree = tree, sd_alg = sd_alg_id cfg,
                        holder_key_ref = map_option (public_of prim) hkey\<rparr>"
    and ds: "iss_disclosures art = issued st" and dec: "iss_decoys art = decoys st"
    by (rule issuer_engine_unpack)
  define index where "index = map (\<lambda>d. (digest_of prim d, d)) (issued st)"
  from cf have di: "distinct (map (digest_of prim) (issued st))"
    and dj: "set (decoys st) \<inter> digest_of prim ` set (issued st) = {}"
    by (simp_all add: collision_free_def ds dec)
  have bi: "build_index prim (map (encode_disclosure prim) (issued st)) = Inr index"
    unfolding index_def using dc di by (intro build_index_issued) (simp_all add: ds)
  have ag: "agrees prim (map_of index) (issued st) (decoys st)"
    unfolding index_def by (rule index_agrees[OF di dj])
  from issue_val_ok[OF iv] obtain new dec' where
    n: "issued st = new" "decoys st = dec'"
    and w: "\<And>idx n p. agrees prim idx new dec' \<Longrightarrow> length new \<le> n \<Longrightarrow>
             \<exists>w loc. walk idx n p tree = Inr (w, loc) \<and> denote w = denote claims \<and>
                     snd ` set loc = digest_of prim ` set new"
    unfolding val_ok_def by auto
  from w[of "map_of index" "length (issued st)" "[]"] ag n obtain v0 located where
    "walk (map_of index) (length (issued st)) [] tree = Inr (v0, located)"
    "denote v0 = denote claims" "snd ` set located = digest_of prim ` set (issued st)"
    by auto
  with bi show ?thesis by (auto simp: ds pl)
qed

lemma round_trip:
  assumes iss: "issuer_engine prim cfgI (PDict claims) key hkey = Inr art"
    and hdr: "jws_header cfgI = jws_header cfg"
    and hold: "holder_engine prim cfg (iss_combined art) sel nonce aud hkey = Inr pres"
    and full: "disclosable_paths prim (iss_combined art) = Inr ps" "set ps \<subseteq> set sel"
    and cl: "encodings_clean prim cfg"
    and sv: "signatures_verify prim"
    and dc: "decodes prim cfg art nonce aud"
    and cf: "collision_free prim art"
    and cv: "currently_valid cfg claims"
    and ik: "issuer_known prim claims cb key"
    and ea: "expected_aud = (if hkey = None then PNone else aud)"
    and en: "expected_nonce = (if hkey = None then PNone else nonce)"
  shows "\<exists>v. verifier_engine prim cfg (pres_combined pres) cb expected_aud expected_nonce = Inr v \<and>
             denote v = denote (PDict claims)"
proof -
  let ?encs = "map (encode_disclosure prim) (iss_disclosures art)"
  let ?so = "iss_signed_object art"
  let ?body = "encode_payload prim (iss_payload art)"
  from dc have dcp: "decode_payload prim ?body = Some (iss_payload art)"
    and dcd: "\<forall>d\<in>set (iss_disclosures art).
               decode_disclosure prim (encode_disclosure prim d) = Some d"
    and dcb: "decode_binding prim
       (encode_binding prim \<lparr>hb_nonce = nonce, hb_audience = aud, hb_issued_at = now cfg\<rparr>)
       = Some \<lparr>hb_nonce = nonce, hb_audience = aud, hb_issued_at = now cfg\<rparr>"
    by (simp_all add: decodes_def)
  from iss obtain tree st where
    iv: "issue_val prim cfgI [] (PDict claims) \<lparr>next_salt = 0, issued = [], decoys = []\<rparr> = (tree, st)"
    and pl: "iss_payload art = \<lparr>claim_tree = tree, sd_alg = sd_alg_id cfgI,
                        holder_key_ref = map_option (public_of prim) hkey\<rparr>"
    and comb: "iss_combined art = combine ?so (map (encode_disclosure prim) (issued st)) None"
    and ds: "iss_disclosures art = issued st"
    by (rule issuer_engine_unpack)
  from cl hdr have cl': "encodings_clean prim cfgI" by (simp add: encodings_clean_def)
  note rd = read_issued_object[OF iss cl' dcp]
  from cl have cd: "\<forall>d\<in>set ?encs. CHR ''~'' \<notin> set d"
    by (auto simp: encodings_clean_def clean_def)
  have pc: "parse_combined (iss_combined art) = Inr (?so, ?encs, None)"
    unfolding comb ds[symmetric] by (rule parse_combined_combine[OF rd(2) cd]) simp
  from walk_issued[OF iss dcd cf] obtain index v0 located where
    bi: "build_index prim ?encs = Inr index"
    and wk: "walk (map_of index) (length (iss_disclosures art)) [] (claim_tree (iss_payload art))
               = Inr (v0, located)"
    and dn: "denote v0 = denote (PDict claims)"
    and lc: "snd ` set located = digest_of prim ` set (iss_disclosures art)"
    by auto
  from full(1) have ps: "ps = map fst located"
    by (simp add: disclosable_paths_def pc rd(1) bi wk)
  have keep: "filter (\<lambda>s. list_ex (\<lambda>(p, d). d = hash prim s \<and> p \<in> set sel) located) ?encs = ?encs"
  proof (rule filter_True, clarsimp simp: list_ex_iff)
    fix a b c assume "(a, b, c) \<in> set (iss_disclosures art)"
    then have "digest_of prim (a, b, c) \<in> snd ` set located" using lc by blast
    then obtain p where p: "(p, digest_of prim (a, b, c)) \<in> set located" by force
    then have "p \<in> set sel" using full(2) ps by force
    with p show "\<exists>x\<in>set located. case x of (p, d) \<Rightarrow>
                    d = hash prim (encode_disclosure prim (a, b, c)) \<and> p \<in> set sel"
      by (force simp: digest_of_def)
  qed
  from hold obtain binding where
    mb: "make_binding prim cfg (iss_payload art) nonce aud hkey = Inr binding"
    and pcb: "pres_combined pres = combine ?so ?encs (map_option snd binding)"
    by (auto simp: holder_engine_def pc rd(1) bi wk keep Let_def and_then_Inr_iff
             split: if_splits)
  have hbok: "\<forall>b. map_option snd binding = Some b \<longrightarrow> b \<noteq> [] \<and> CHR ''~'' \<notin> set b"
    and cb: "check_binding prim cfg (iss_payload art) (map_option snd binding)
               expected_aud expected_nonce = Inr ()"
  proof -
    show "\<forall>b. map_option snd binding = Some b \<longrightarrow> b \<noteq> [] \<and> CHR ''~'' \<notin> set b"
    proof (cases hkey)
      case None
      with mb show ?thesis by (simp add: make_binding_def pl)
    next
      case (Some k)
      let ?hb = "\<lparr>hb_nonce = nonce, hb_audience = aud, hb_issued_at = now cfg\<rparr>"
      from mb Some obtain sg where
        sg: "sign prim k (jws_header cfg @ CHR ''.'' # encode_binding prim ?hb) = Inr sg"
        and b: "binding = Some (?hb, compact (jws_header cfg) (encode_binding prim ?hb) sg)"
        by (auto simp: make_binding_def pl Let_def and_then_Inr_iff)
      from cl sg have c: "clean (jws_header cfg)" "clean (encode_binding prim ?hb)" "clean sg"
        unfolding encodings_clean_def by blast+
      from clean_compact[OF c] show ?thesis by (auto simp: b compact_def)
    qed
    show "check_binding prim cfg (iss_payload art) (map_option snd binding)
               expected_aud expected_nonce = Inr ()"
    proof (cases hkey)
      case None
      with mb have "binding = None" by (simp add: make_binding_def pl)
      with None show ?thesis by (simp add: check_binding_def ea en)
    next
      case (Some k)
      let ?hb = "\<lparr>hb_nonce = nonce, hb_audience = aud, hb_issued_at = now cfg\<rparr>"
      from mb Some obtain sg where
        sg: "sign prim k (jws_header cfg @ CHR ''.'' # encode_binding prim ?hb) = Inr sg"
        and b: "binding = Some (?hb, compact (jws_header cfg) (encode_binding prim ?hb) sg)"
        by (auto simp: make_binding_def pl Let_def and_then_Inr_iff)
      from cl sg have c: "clean (jws_header cfg)" "clean (encode_binding prim ?hb)" "clean sg"
        unfolding encodings_clean_def by blast+
      from sv sg have vs: "verify_sig prim (public_of prim k)
                            (jws_header cfg @ CHR ''.'' # encode_binding prim ?hb) sg"
        unfolding signatures_verify_def by blast
      from cv have "0 \<le> tolerance cfg" by (simp add: currently_valid_def)
      then show ?thesis
        by (simp add: check_binding_def b pl Some parse_compact_compact[OF c] vs dcb ea en)
    qed
  qed
  have pc': "parse_combined (pres_combined pres) = Inr (?so, ?encs, map_option snd binding)"
    unfolding pcb by (rule parse_combined_combine[OF rd(2) cd hbok])
  from ik obtain i where i: "map_of claims ''iss'' = Some (PStr i)" "cb i = Inr (public_of prim key)"
    by (auto simp: issuer_known_def)
  from cv obtain e t where et: "map_of claims ''exp'' = Some (PInt e)"
    "map_of claims ''iat'' = Some (PInt t)" "now cfg \<le> e + tolerance cfg"
    "t \<le> now cfg + tolerance cfg"
    by (auto simp: currently_valid_def)
  from issue_top_lookup[OF iv] i(1) et(1,2) obtain plain digs where
    tr: "tree = CObj plain digs" "map_of plain ''iss'' = Some (CStr i)"
        "map_of plain ''exp'' = Some (CInt e)" "map_of plain ''iat'' = Some (CInt t)"
    by blast
  have pi: "payload_issuer (iss_payload art) = Inr i"
    by (simp add: payload_issuer_def pl tr)
  have ct: "check_temporal cfg (iss_payload art) = Inr ()"
    using et(3,4) by (simp add: check_temporal_def pl tr)
  from rd(3) sv have vs: "verify_sig prim (public_of prim key)
           (jws_header cfgI @ CHR ''.'' # ?body) (iss_signature art)" by blast
  have ex: "list_all (\<lambda>s. hash prim s \<in> snd ` set located) ?encs"
    by (auto simp: list_all_iff lc digest_of_def)
  have "verifier_engine prim cfg (pres_combined pres) cb expected_aud expected_nonce = Inr v0"
    by (simp add: verifier_engine_def verify_claims_def pc' rd(1) pi i(2) vs ct bi wk ex cb)
  with dn show ?thesis by blast
qed

section \<open>The issuer-key callback fails loudly\<close>

text \<open>
  C3.  Whenever the claim set has been built, it holds an \<open>iss\<close> entry, and the callback
  returns the issuer's public key for the issuer identifier equal to that entry and raises
  the exception \<open>Unknown issuer\<close> for every other issuer identifier.  It has no third
  outcome: it never returns \<open>None\<close>.
\<close>

theorem cb_get_issuer_key_fails_loudly:
  assumes "make_claims settings testcase = Inr claims"
  shows "\<exists>iss. subscript claims ''iss'' = Inr iss \<and>
           (\<forall>issuer. cb_get_issuer_key claims pk issuer =
                       (if PStr issuer = iss then Inr pk else Inl (UnknownIssuer issuer)))"
  using make_claims_has_iss[OF assms] by (auto simp: cb_get_issuer_key_def)

theorem cb_get_issuer_key_fails_loudly_witness:
  "make_claims demo_settings demo_testcase = Inr demo_claims \<and>
   (\<exists>iss. subscript demo_claims ''iss'' = Inr iss \<and>
      (\<forall>issuer. cb_get_issuer_key demo_claims ''issuer-public-key'' issuer =
                  (if PStr issuer = iss then Inr ''issuer-public-key''
                   else Inl (UnknownIssuer issuer))))"
  using demo_make_claims
    cb_get_issuer_key_fails_loudly[OF demo_make_claims, where pk = "''issuer-public-key''"]
  by simp

end
